theory Spec2Isabelle
  imports Main "HOL-Library.Sublist"
begin

section \<open>JavaScript strings\<close>

text \<open>
  A JavaScript string is modelled as a \<open>string\<close>; one \<open>char\<close> stands for one
  UTF-16 code unit in the range U+0000 to U+00FF. The regular expressions of the
  scripts carry no \<open>u\<close> or \<open>i\<close> flag, so they work code unit by code unit.
\<close>

definition js_space :: "char \<Rightarrow> bool" where
  \<comment> \<open>the class \<open>\s\<close>, which is also what \<open>trim\<close> strips: TAB, LF, VT, FF, CR, SP, NBSP\<close>
  "js_space c = (c = CHR 0x09 \<or> c = CHR 0x0A \<or> c = CHR 0x0B \<or> c = CHR 0x0C
     \<or> c = CHR 0x0D \<or> c = CHR 0x20 \<or> c = CHR 0xA0)"

definition js_digit :: "char \<Rightarrow> bool" where
  \<comment> \<open>the class \<open>\d\<close>\<close>
  "js_digit c = (c = CHR ''0'' \<or> c = CHR ''1'' \<or> c = CHR ''2'' \<or> c = CHR ''3'' \<or> c = CHR ''4''
     \<or> c = CHR ''5'' \<or> c = CHR ''6'' \<or> c = CHR ''7'' \<or> c = CHR ''8'' \<or> c = CHR ''9'')"

definition line_terminator :: "char \<Rightarrow> bool" where
  \<comment> \<open>what \<open>^\<close> and \<open>$\<close> look at under the \<open>m\<close> flag, and what \<open>.\<close> refuses: LF and CR\<close>
  "line_terminator c = (c = CHR 0x0A \<or> c = CHR 0x0D)"

definition any_char :: "char \<Rightarrow> bool" where
  \<comment> \<open>the class \<open>[\s\S]\<close>\<close>
  "any_char c = True"

definition dot :: "char \<Rightarrow> bool" where
  \<comment> \<open>the class \<open>.\<close>\<close>
  "dot c = (\<not> line_terminator c)"

definition is_char :: "char \<Rightarrow> char \<Rightarrow> bool" where
  "is_char a c = (c = a)"

definition not_char :: "char \<Rightarrow> char \<Rightarrow> bool" where
  \<comment> \<open>a negated one-character class such as \<open>[^"]\<close>\<close>
  "not_char a c = (c \<noteq> a)"

definition trim :: "string \<Rightarrow> string" where
  \<comment> \<open>\<open>String.prototype.trim\<close>\<close>
  "trim s = rev (dropWhile js_space (rev (dropWhile js_space s)))"

fun includes_str :: "string \<Rightarrow> string \<Rightarrow> bool" where
  \<comment> \<open>\<open>s.includes(t)\<close>: \<open>t\<close> occurs in \<open>s\<close> at some offset\<close>
  "includes_str [] t = (t = [])"
| "includes_str (c # cs) t = (if prefix t (c # cs) then True else includes_str cs t)"

fun join :: "string \<Rightarrow> string list \<Rightarrow> string" where
  \<comment> \<open>\<open>xs.join(sep)\<close>\<close>
  "join sep [] = []"
| "join sep [x] = x"
| "join sep (x # y # ys) = x @ sep @ join sep (y # ys)"

definition digit_char :: "nat \<Rightarrow> char" where
  "digit_char d = ''0123456789'' ! d"

fun show_nat :: "nat \<Rightarrow> string" where
  \<comment> \<open>the decimal rendering of a non-negative integer in a template literal\<close>
  "show_nat n = (if n < 10 then [digit_char n] else show_nat (n div 10) @ [digit_char (n mod 10)])"

declare show_nat.simps [simp del]

definition show_int :: "int \<Rightarrow> string" where
  "show_int i = (if i < 0 then CHR ''-'' # show_nat (nat (- i)) else show_nat (nat i))"

section \<open>Regular expressions\<close>

text \<open>
  Every regular expression of the scripts is a sequence of literals, quantified
  character classes, anchors and capture groups around such sequences, with no
  alternation and no quantified group. \<open>atom list\<close> writes such a pattern down, and
  \<open>rx_match\<close> is the backtracking matcher of ECMAScript on it: a quantified class tries
  its repetition counts from the largest (greedy) or from the smallest (lazy) and takes
  the first one under which the rest of the pattern matches.
\<close>

datatype atom =
    Lit string                                  \<comment> \<open>literal characters\<close>
  | Rep "char \<Rightarrow> bool" nat "nat option" bool   \<comment> \<open>class, least count, largest count, greedy\<close>
  | Bos                                         \<comment> \<open>\<open>^\<close> without the \<open>m\<close> flag\<close>
  | Eos                                         \<comment> \<open>\<open>$\<close> without the \<open>m\<close> flag\<close>
  | Bol                                         \<comment> \<open>\<open>^\<close> with the \<open>m\<close> flag\<close>
  | Eol                                         \<comment> \<open>\<open>$\<close> with the \<open>m\<close> flag\<close>
  | Mark                                        \<comment> \<open>an opening or closing parenthesis of a capture group\<close>

abbreviation star :: "(char \<Rightarrow> bool) \<Rightarrow> atom" where
  "star c \<equiv> Rep c 0 None True"

abbreviation plus :: "(char \<Rightarrow> bool) \<Rightarrow> atom" where
  "plus c \<equiv> Rep c 1 None True"

abbreviation lazy_star :: "(char \<Rightarrow> bool) \<Rightarrow> atom" where
  "lazy_star c \<equiv> Rep c 0 None False"

abbreviation exactly :: "nat \<Rightarrow> (char \<Rightarrow> bool) \<Rightarrow> atom" where
  "exactly n c \<equiv> Rep c n (Some n) True"

abbreviation optional :: "(char \<Rightarrow> bool) \<Rightarrow> atom" where
  "optional c \<equiv> Rep c 0 (Some 1) True"

fun first_some :: "('a \<Rightarrow> 'b option) \<Rightarrow> 'a list \<Rightarrow> 'b option" where
  "first_some f [] = None"
| "first_some f (x # xs) = (case f x of Some y \<Rightarrow> Some y | None \<Rightarrow> first_some f xs)"

definition prev_after :: "nat \<Rightarrow> char option \<Rightarrow> string \<Rightarrow> char option" where
  \<comment> \<open>the character before the position reached by consuming \<open>k\<close> characters of \<open>s\<close>\<close>
  "prev_after k p s = (if k = 0 then p else Some (s ! (k - 1)))"

definition counts :: "nat \<Rightarrow> nat \<Rightarrow> bool \<Rightarrow> nat list" where
  \<comment> \<open>the repetition counts from \<open>lo\<close> to \<open>hi\<close> in the order the matcher tries them\<close>
  "counts lo hi greedy = (if greedy then rev [lo ..< Suc hi] else [lo ..< Suc hi])"

fun rx_match :: "atom list \<Rightarrow> char option \<Rightarrow> string \<Rightarrow> (string list \<times> string) option" where
  \<comment> \<open>the pattern, the character before the current position, the input from the current
      position on; the result is the input left at each \<open>Mark\<close> and after the match\<close>
  "rx_match [] p s = Some ([], s)"
| "rx_match (Lit l # as) p s =
     (if prefix l s then rx_match as (prev_after (length l) p s) (drop (length l) s) else None)"
| "rx_match (Rep c lo hi greedy # as) p s =
     (let n = length (takeWhile c s);
          top = (case hi of None \<Rightarrow> n | Some h \<Rightarrow> min h n)
      in first_some (\<lambda>k. rx_match as (prev_after k p s) (drop k s)) (counts lo top greedy))"
| "rx_match (Bos # as) p s = (if p = None then rx_match as p s else None)"
| "rx_match (Eos # as) p s = (if s = [] then rx_match as p s else None)"
| "rx_match (Bol # as) p s =
     (if (case p of None \<Rightarrow> True | Some c \<Rightarrow> line_terminator c) then rx_match as p s else None)"
| "rx_match (Eol # as) p s =
     (if (case s of [] \<Rightarrow> True | c # cs \<Rightarrow> line_terminator c) then rx_match as p s else None)"
| "rx_match (Mark # as) p s =
     (case rx_match as p s of None \<Rightarrow> None | Some (ms, r) \<Rightarrow> Some (s # ms, r))"

record rx_result =
  index :: nat              \<comment> \<open>\<open>match.index\<close>\<close>
  matched :: string         \<comment> \<open>\<open>match[0]\<close>\<close>
  groups :: "string list"   \<comment> \<open>\<open>match[1]\<close>, \<open>match[2]\<close>, ...\<close>
  rest :: string            \<comment> \<open>the input after the match\<close>

fun captures :: "string list \<Rightarrow> string list" where
  \<comment> \<open>the text between the two marks of each group\<close>
  "captures (a # b # ms) = take (length a - length b) a # captures ms"
| "captures ms = []"

definition mk_result :: "nat \<Rightarrow> string \<Rightarrow> string list \<times> string \<Rightarrow> rx_result" where
  "mk_result i s mr = \<lparr> index = i, matched = take (length s - length (snd mr)) s,
     groups = captures (fst mr), rest = snd mr \<rparr>"

fun search :: "atom list \<Rightarrow> char option \<Rightarrow> string \<Rightarrow> nat \<Rightarrow> rx_result option" where
  \<comment> \<open>the leftmost match at or after the current position, whose offset is \<open>i\<close>\<close>
  "search rx p [] i = map_option (mk_result i []) (rx_match rx p [])"
| "search rx p (c # cs) i =
     (case rx_match rx p (c # cs) of
        Some mr \<Rightarrow> Some (mk_result i (c # cs) mr)
      | None \<Rightarrow> search rx (Some c) cs (Suc i))"

definition exec :: "atom list \<Rightarrow> string \<Rightarrow> rx_result option" where
  \<comment> \<open>\<open>s.match(rx)\<close> for a pattern without the \<open>g\<close> flag; \<open>None\<close> is \<open>null\<close>\<close>
  "exec rx s = search rx None s 0"

definition test :: "atom list \<Rightarrow> string \<Rightarrow> bool" where
  \<comment> \<open>\<open>rx.test(s)\<close>, and the truth value of \<open>s.match(rx)\<close>\<close>
  "test rx s = (exec rx s \<noteq> None)"

subsection \<open>A match ends inside the input\<close>

lemma first_some_SomeD: "first_some f xs = Some y \<Longrightarrow> \<exists>x \<in> set xs. f x = Some y"
  by (induction xs) (auto split: option.splits)

lemma rx_match_suffix: "rx_match rx p s = Some (ms, r) \<Longrightarrow> suffix r s"
proof (induction rx p s arbitrary: ms r rule: rx_match.induct)
  case (2 l as p s)
  then show ?case
    by (auto split: if_splits intro: suffix_order.trans suffix_drop)
next
  case (3 c lo hi greedy as p s)
  from "3.prems" obtain k where "rx_match as (prev_after k p s) (drop k s) = Some (ms, r)"
    by (auto simp: Let_def dest!: first_some_SomeD)
  then have "suffix r (drop k s)" using "3.IH" by (auto simp: Let_def)
  then show ?case by (rule suffix_order.trans) (rule suffix_drop)
next
  case (8 as p s)
  then show ?case by (auto split: option.splits)
qed (auto split: if_splits)

lemma rx_match_split:
  assumes "rx_match rx p s = Some mr"
  shows "s = take (length s - length (snd mr)) s @ snd mr"
proof -
  from assms have "suffix (snd mr) s"
    using rx_match_suffix [of rx p s "fst mr" "snd mr"] by simp
  then obtain pre where "s = pre @ snd mr" by (auto simp: suffix_def)
  then show ?thesis by (metis add_diff_cancel_right' append_eq_conv_conj length_append)
qed

lemma search_split:
  "search rx p s i = Some r \<Longrightarrow>
     \<exists>pre. s = pre @ matched r @ rest r \<and> index r = i + length pre"
proof (induction s arbitrary: p i)
  case Nil
  then obtain mr where mr: "rx_match rx p [] = Some mr" and r: "r = mk_result i [] mr" by auto
  from rx_match_split [OF mr] r show ?case by (simp add: mk_result_def)
next
  case (Cons c cs)
  show ?case
  proof (cases "rx_match rx p (c # cs)")
    case None
    with Cons.prems have "search rx (Some c) cs (Suc i) = Some r" by simp
    from Cons.IH [OF this] obtain pre where "cs = pre @ matched r @ rest r" "index r = Suc i + length pre"
      by blast
    then have "c # cs = (c # pre) @ matched r @ rest r \<and> index r = i + length (c # pre)" by simp
    then show ?thesis by blast
  next
    case (Some mr)
    with Cons.prems have r: "r = mk_result i (c # cs) mr" by simp
    from rx_match_split [OF Some] r
    have "c # cs = [] @ matched r @ rest r \<and> index r = i + length ([] :: string)"
      by (simp add: mk_result_def)
    then show ?thesis by blast
  qed
qed

lemma search_rest:
  "search rx p s i = Some r \<Longrightarrow> length (matched r) + length (rest r) \<le> length s"
  by (drule search_split) auto

subsection \<open>Global matching, splitting and replacing\<close>

function matchAll :: "atom list \<Rightarrow> char option \<Rightarrow> string \<Rightarrow> nat \<Rightarrow> rx_result list" where
  \<comment> \<open>the successive matches of a pattern with the \<open>g\<close> flag: the search resumes where
      the last match ended, one character further after an empty match\<close>
  "matchAll rx p s i =
     (case search rx p s i of
        None \<Rightarrow> []
      | Some r \<Rightarrow> r #
          (if matched r = []
           then (case rest r of [] \<Rightarrow> [] | c # cs \<Rightarrow> matchAll rx (Some c) cs (Suc (index r)))
           else matchAll rx (Some (last (matched r))) (rest r) (index r + length (matched r))))"
  by pat_completeness auto
termination
proof (relation "measure (\<lambda>(rx, p, s, i). length s)")
  show "wf (measure (\<lambda>(rx, p, s, i). length s))" by simp
next
  fix rx p s i r c cs
  assume "search rx p s i = Some r" "matched r = []" "rest r = c # cs"
  then show "((rx, Some c, cs, Suc (index r)), (rx, p, s, i)) \<in> measure (\<lambda>(rx, p, s, i). length s)"
    using search_rest [of rx p s i r] by simp
next
  fix rx p s i r
  assume "search rx p s i = Some r" "matched r \<noteq> []"
  then show "((rx, Some (last (matched r)), rest r, index r + length (matched r)), (rx, p, s, i))
      \<in> measure (\<lambda>(rx, p, s, i). length s)"
    using search_rest [of rx p s i r] by (cases "matched r") auto
qed

declare matchAll.simps [simp del]

definition match_all :: "atom list \<Rightarrow> string \<Rightarrow> rx_result list" where
  \<comment> \<open>\<open>[...s.matchAll(rx)]\<close>\<close>
  "match_all rx s = matchAll rx None s 0"

definition match_g :: "atom list \<Rightarrow> string \<Rightarrow> string list" where
  \<comment> \<open>\<open>(s.match(rx) || [])\<close> for a pattern with the \<open>g\<close> flag: the matched texts\<close>
  "match_g rx s = map matched (match_all rx s)"

function split_loop :: "atom list \<Rightarrow> char option \<Rightarrow> string \<Rightarrow> string \<Rightarrow> string list" where
  \<comment> \<open>the loop of \<open>String.prototype.split\<close> with a pattern: \<open>acc\<close> holds, reversed, the
      characters since the end of the last separator; a match that is empty and sits at
      the start of the current piece is passed over\<close>
  "split_loop rx p acc [] = [rev acc]"
| "split_loop rx p acc (c # cs) =
     (case rx_match rx p (c # cs) of
        None \<Rightarrow> split_loop rx (Some c) (c # acc) cs
      | Some (ms, r) \<Rightarrow>
          if r = c # cs \<and> acc = [] then split_loop rx (Some c) (c # acc) cs
          else rev acc # captures ms @
            split_loop rx (prev_after (length (c # cs) - length r) p (c # cs)) [] r)"
  by pat_completeness auto
termination
proof (relation "measures [\<lambda>(rx, p, acc, s). length s, \<lambda>(rx, p, acc, s). length acc]")
  show "wf (measures [\<lambda>(rx, p, acc, s). length s, \<lambda>(rx, p, acc, s). length acc])" by simp
next
  fix rx :: "atom list" and p acc c cs
  show "((rx, Some c, c # acc, cs), (rx, p, acc, c # cs))
      \<in> measures [\<lambda>(rx, p, acc, s). length s, \<lambda>(rx, p, acc, s). length acc]" by simp
next
  fix rx :: "atom list" and p acc c cs x2 x y
  show "((rx, Some c, c # acc, cs), (rx, p, acc, c # cs))
      \<in> measures [\<lambda>(rx, p, acc, s). length s, \<lambda>(rx, p, acc, s). length acc]" by simp
next
  fix rx p acc c cs x2 ms r
  assume m: "rx_match rx p (c # cs) = Some x2" "(ms, r) = x2" and ne: "\<not> (r = c # cs \<and> acc = [])"
  from m have "suffix r (c # cs)" using rx_match_suffix [of rx p "c # cs" ms r] by simp
  then have "length r < length (c # cs) \<or> r = c # cs"
    by (metis suffix_length_le le_neq_implies_less suffix_order.eq_iff suffix_length_suffix suffix_order.refl)
  with ne show "((rx, prev_after (length (c # cs) - length r) p (c # cs), [], r), (rx, p, acc, c # cs))
      \<in> measures [\<lambda>(rx, p, acc, s). length s, \<lambda>(rx, p, acc, s). length acc]"
    by auto
qed

definition split :: "atom list \<Rightarrow> string \<Rightarrow> string list" where
  \<comment> \<open>\<open>s.split(rx)\<close>; on the empty string the result is empty when the pattern matches it\<close>
  "split rx s = (if s = [] then (if rx_match rx None [] = None then [[]] else [])
                 else split_loop rx None [] s)"

fun index_of :: "string \<Rightarrow> string \<Rightarrow> nat option" where
  \<comment> \<open>\<open>s.indexOf(t)\<close>, \<open>None\<close> for \<open>-1\<close>\<close>
  "index_of [] t = (if t = [] then Some 0 else None)"
| "index_of (c # cs) t = (if prefix t (c # cs) then Some 0 else map_option Suc (index_of cs t))"

definition digit_val :: "char \<Rightarrow> nat" where
  "digit_val d = of_char d - 48"

fun getSubstitution :: "string \<Rightarrow> string \<Rightarrow> nat \<Rightarrow> string list \<Rightarrow> string \<Rightarrow> string" where
  \<comment> \<open>the abstract operation GetSubstitution of ECMAScript, without named groups: the
      matched text, the whole string, the offset of the match, the captures, the template\<close>
  "getSubstitution m str pos caps [] = []"
| "getSubstitution m str pos caps [c] = [c]"
| "getSubstitution m str pos caps (c # d # t) =
     (if c \<noteq> CHR ''$'' then c # getSubstitution m str pos caps (d # t)
      else if d = CHR ''$'' then CHR ''$'' # getSubstitution m str pos caps t
      else if d = CHR 0x60 then take pos str @ getSubstitution m str pos caps t
      else if d = CHR ''&'' then m @ getSubstitution m str pos caps t
      else if d = CHR 0x27 then
        drop (min (pos + length m) (length str)) str @ getSubstitution m str pos caps t
      else if js_digit d then
        (case t of
           e # t' \<Rightarrow>
             if js_digit e \<and> digit_val d * 10 + digit_val e \<le> length caps then
               (if 1 \<le> digit_val d * 10 + digit_val e
                then caps ! (digit_val d * 10 + digit_val e - 1) @ getSubstitution m str pos caps t'
                else c # d # e # getSubstitution m str pos caps t')
             else if 1 \<le> digit_val d \<and> digit_val d \<le> length caps
               then caps ! (digit_val d - 1) @ getSubstitution m str pos caps t
               else c # d # getSubstitution m str pos caps t
         | [] \<Rightarrow>
             if 1 \<le> digit_val d \<and> digit_val d \<le> length caps
             then caps ! (digit_val d - 1) @ getSubstitution m str pos caps t
             else c # d # getSubstitution m str pos caps t)
      else if d = CHR ''<'' then c # d # getSubstitution m str pos caps t
      else c # getSubstitution m str pos caps (d # t))"

definition replace_rx :: "atom list \<Rightarrow> string \<Rightarrow> string \<Rightarrow> string" where
  \<comment> \<open>\<open>s.replace(rx, template)\<close> for a pattern without the \<open>g\<close> flag\<close>
  "replace_rx rx s template =
     (case exec rx s of
        None \<Rightarrow> s
      | Some r \<Rightarrow> take (index r) s
          @ getSubstitution (matched r) s (index r) (groups r) template @ rest r)"

definition replace_str :: "string \<Rightarrow> string \<Rightarrow> string \<Rightarrow> string" where
  \<comment> \<open>\<open>s.replace(pattern, template)\<close> for a string pattern: the first occurrence only\<close>
  "replace_str s pat template =
     (case index_of s pat of
        None \<Rightarrow> s
      | Some i \<Rightarrow> take i s @ getSubstitution pat s i [] template @ drop (i + length pat) s)"

section \<open>content-validator.js\<close>

text \<open>
  \<open>ContentValidator\<close> keeps two arrays, \<open>errors\<close> and \<open>warnings\<close>; every method
  takes the validator and returns its return value together with the validator it leaves.
\<close>

record validator =
  errors :: "string list"
  warnings :: "string list"

definition push_error :: "string \<Rightarrow> validator \<Rightarrow> validator" where
  "push_error e v = v\<lparr>errors := errors v @ [e]\<rparr>"

definition push_warning :: "string \<Rightarrow> validator \<Rightarrow> validator" where
  "push_warning w v = v\<lparr>warnings := warnings v @ [w]\<rparr>"

definition front_matter_rx :: "atom list" where
  \<comment> \<open>\<open>/^---\n([\s\S]*?)\n---\n/\<close>\<close>
  "front_matter_rx =
     [Bos, Lit ''---\<newline>'', Mark, lazy_star any_char, Mark, Lit ''\<newline>---\<newline>'']"

definition requiredFields :: "string list" where
  "requiredFields =
     [''title'', ''productname'', ''productkey'', ''platformkey'', ''date'', ''lastmod'', ''type'']"

definition dateFields :: "string list" where
  "dateFields = [''date'', ''lastmod'']"

definition date_field_rx :: "string \<Rightarrow> atom list" where
  \<comment> \<open>\<open>new RegExp(`${field}:\\s*(\\d{4}-\\d{2}-\\d{2})`)\<close>\<close>
  "date_field_rx field =
     [Lit (field @ '':''), star js_space,
      Mark, exactly 4 js_digit, Lit ''-'', exactly 2 js_digit, Lit ''-'', exactly 2 js_digit, Mark]"

definition strict_date_rx :: "atom list" where
  \<comment> \<open>\<open>/^\d{4}-\d{2}-\d{2}$/\<close>\<close>
  "strict_date_rx =
     [Bos, exactly 4 js_digit, Lit ''-'', exactly 2 js_digit, Lit ''-'', exactly 2 js_digit, Eos]"

definition check_required :: "string \<Rightarrow> string \<Rightarrow> validator \<Rightarrow> validator" where
  \<comment> \<open>the body of the loop over \<open>requiredFields\<close>\<close>
  "check_required frontMatter field v =
     (if \<not> includes_str frontMatter (field @ '':'')
      then push_error (''Missing required field: '' @ field) v else v)"

definition check_date :: "string \<Rightarrow> string \<Rightarrow> validator \<Rightarrow> validator" where
  \<comment> \<open>the body of the loop over \<open>dateFields\<close>\<close>
  "check_date frontMatter field v =
     (case exec (date_field_rx field) frontMatter of
        None \<Rightarrow> v
      | Some m \<Rightarrow>
          (let dateStr = groups m ! 0
           in if \<not> test strict_date_rx dateStr
              then push_error (''Invalid date format for '' @ field @ '': '' @ dateStr
                     @ '' (should be YYYY-MM-DD)'') v
              else v))"

definition validateFrontMatter :: "string \<Rightarrow> validator \<Rightarrow> bool \<times> validator" where
  "validateFrontMatter content v =
     (case exec front_matter_rx content of
        None \<Rightarrow> (False, push_error ''Missing or malformed front matter'' v)
      | Some frontMatterMatch \<Rightarrow>
          (let frontMatter = groups frontMatterMatch ! 0;
               v1 = fold (check_required frontMatter) requiredFields v;
               v2 = fold (check_date frontMatter) dateFields v1
           in (errors v2 = [], v2)))"

definition gist_rx :: "atom list" where
  \<comment> \<open>\<open>/\{\{<\s*gist[\s\S]*?\>\}\}/g\<close>\<close>
  "gist_rx = [Lit ''{{<'', star js_space, Lit ''gist'', lazy_star any_char, Lit ''>}}'']"

definition gist_modified :: "nat \<Rightarrow> string \<Rightarrow> string \<Rightarrow> string" where
  "gist_modified i a b =
     ''Gist '' @ show_nat (i + 1) @ '' was modified: \"'' @ a @ ''\" -> \"'' @ b @ ''\"''"

definition check_gist :: "string list \<Rightarrow> string list \<Rightarrow> nat \<Rightarrow> validator \<Rightarrow> validator" where
  \<comment> \<open>the body of the loop over the positions \<open>i\<close>\<close>
  "check_gist originalGists newGists i v =
     (if originalGists ! i \<noteq> newGists ! i
      then push_error (gist_modified i (originalGists ! i) (newGists ! i)) v else v)"

definition validateGistPreservation :: "string \<Rightarrow> string \<Rightarrow> validator \<Rightarrow> bool \<times> validator" where
  "validateGistPreservation originalContent newContent v =
     (let originalGists = match_g gist_rx originalContent;
          newGists = match_g gist_rx newContent
      in if length originalGists \<noteq> length newGists
         then (False, push_error (''Gist count mismatch: original ''
                 @ show_nat (length originalGists) @ '', new '' @ show_nat (length newGists)) v)
         else (let v1 = fold (check_gist originalGists newGists) [0 ..< length originalGists] v
               in (errors v1 = [], v1)))"

definition heading_rx :: "atom list" where
  \<comment> \<open>\<open>/^#{1,6}\s+.+$/gm\<close>\<close>
  "heading_rx = [Bol, Rep (is_char CHR ''#'') 1 (Some 6) True, plus js_space, plus dot, Eol]"

definition heading_prefix_rx :: "atom list" where
  \<comment> \<open>\<open>/^#+\s+/\<close>\<close>
  "heading_prefix_rx = [Bos, plus (is_char CHR ''#''), plus js_space]"

definition check_heading :: "string list \<Rightarrow> string list \<Rightarrow> nat \<Rightarrow> validator \<Rightarrow> validator" where
  "check_heading originalHeadingTexts newHeadingTexts i v =
     (if originalHeadingTexts ! i \<noteq> newHeadingTexts ! i
      then push_warning (''Heading '' @ show_nat (i + 1) @ '' changed: \"''
             @ originalHeadingTexts ! i @ ''\" -> \"'' @ newHeadingTexts ! i @ ''\"'') v
      else v)"

definition validateHeadingsPreservation :: "string \<Rightarrow> string \<Rightarrow> validator \<Rightarrow> bool \<times> validator" where
  "validateHeadingsPreservation originalContent newContent v =
     (let originalHeadings = match_g heading_rx originalContent;
          newHeadings = match_g heading_rx newContent;
          v1 = (if length originalHeadings \<noteq> length newHeadings
                then push_warning (''Heading count changed: original ''
                       @ show_nat (length originalHeadings) @ '', new ''
                       @ show_nat (length newHeadings)) v
                else v);
          originalHeadingTexts = map (\<lambda>h. replace_rx heading_prefix_rx h []) originalHeadings;
          newHeadingTexts = map (\<lambda>h. replace_rx heading_prefix_rx h []) newHeadings
      in (True, fold (check_heading originalHeadingTexts newHeadingTexts)
                  [0 ..< min (length originalHeadingTexts) (length newHeadingTexts)] v1))"

definition link_rx :: "atom list" where
  \<comment> \<open>\<open>/\[([^\]]*)\]\([^)]+\)/g\<close>\<close>
  "link_rx = [Lit ''['', Mark, star (not_char CHR '']''), Mark, Lit ''](''
     , plus (not_char CHR '')''), Lit '')'']"

definition internalLinkPattern :: "atom list" where
  \<comment> \<open>\<open>/\{\{<\s*site\/baseurl\s*\>\}/g\<close>\<close>
  "internalLinkPattern = [Lit ''{{<'', star js_space, Lit ''site/baseurl'', star js_space, Lit ''>}'']"

definition validateLinksPreservation :: "string \<Rightarrow> string \<Rightarrow> validator \<Rightarrow> bool \<times> validator" where
  "validateLinksPreservation originalContent newContent v =
     (let originalLinks = match_g link_rx originalContent;
          newLinks = match_g link_rx newContent;
          v1 = (if length originalLinks \<noteq> length newLinks
                then push_warning (''Link count changed: original ''
                       @ show_nat (length originalLinks) @ '', new '' @ show_nat (length newLinks)) v
                else v);
          originalInternalLinks = match_g internalLinkPattern originalContent;
          newInternalLinks = match_g internalLinkPattern newContent;
          v2 = (if length originalInternalLinks \<noteq> length newInternalLinks
                then push_error (''Internal link count mismatch: original ''
                       @ show_nat (length originalInternalLinks) @ '', new ''
                       @ show_nat (length newInternalLinks)) v1
                else v1)
      in (errors v2 = [], v2))"

definition abs_diff :: "nat \<Rightarrow> nat \<Rightarrow> nat" where
  \<comment> \<open>\<open>Math.abs(a - b)\<close> on two counts\<close>
  "abs_diff a b = (if a \<le> b then b - a else a - b)"

definition validateMarkdownStructure :: "string \<Rightarrow> validator \<Rightarrow> bool \<times> validator" where
  "validateMarkdownStructure content v =
     (let openBrackets = length (match_g [Lit ''[''] content);
          closeBrackets = length (match_g [Lit '']''] content);
          issues1 = (if openBrackets \<noteq> closeBrackets
                     then [''Unmatched square brackets: '' @ show_nat openBrackets @ '' open, ''
                            @ show_nat closeBrackets @ '' close'']
                     else []);
          openParens = length (match_g [Lit ''](''] content);
          closeParens = length (match_g
            [Lit '')'', star js_space, exactly 1 (not_char CHR ''('')] content);
          v1 = (if abs_diff openParens closeParens > 1
                then push_warning ''Potential unmatched parentheses in links'' v else v);
          codeBlocks = match_g [Lit ''```''] content;
          issues = (if codeBlocks \<noteq> [] \<and> length codeBlocks mod 2 \<noteq> 0
                    then issues1 @ [''Unmatched code block markers (```)'']
                    else issues1)
      in (issues = [], v1\<lparr>errors := errors v1 @ issues\<rparr>))"

definition round_percent :: "nat \<Rightarrow> nat \<Rightarrow> nat" where
  \<comment> \<open>\<open>Math.round(a / b * 100)\<close>, the quotient taken exactly where the script computes
      it in double precision\<close>
  "round_percent a b = (200 * a + b) div (2 * b)"

definition validateContentLength :: "string \<Rightarrow> string \<Rightarrow> validator \<Rightarrow> bool \<times> validator" where
  \<comment> \<open>\<open>ratio < 0.5\<close> and \<open>ratio > 2.0\<close> are written on the two lengths; \<open>originalLength\<close>
      is positive wherever \<open>validateFile\<close> calls this\<close>
  "validateContentLength originalContent newContent v =
     (let originalLength = length originalContent;
          newLength = length newContent
      in if 2 * newLength < originalLength
         then (True, push_warning (''Content significantly shortened: ''
                 @ show_nat (round_percent (originalLength - newLength) originalLength)
                 @ ''% reduction'') v)
         else if newLength > 2 * originalLength
         then (True, push_warning (''Content significantly lengthened: ''
                 @ show_nat (round_percent (newLength - originalLength) originalLength)
                 @ ''% increase'') v)
         else (True, v))"

subsection \<open>The file system\<close>

text \<open>
  The files are a map from paths to contents. \<open>readFileSync\<close>, \<open>copyFileSync\<close> and
  \<open>unlinkSync\<close> throw on a path that does not exist; nothing else fails.
\<close>

type_synonym files = "string \<rightharpoonup> string"

definition enoent :: "string \<Rightarrow> string \<Rightarrow> string" where
  \<comment> \<open>the message of the error Node raises on a missing path\<close>
  "enoent syscall path = ''ENOENT: no such file or directory, '' @ syscall @ '' '' @ [CHR 0x27]
     @ path @ [CHR 0x27]"

definition readFileSync :: "files \<Rightarrow> string \<Rightarrow> string + string" where
  "readFileSync fs path = (case fs path of None \<Rightarrow> Inl (enoent ''open'' path) | Some c \<Rightarrow> Inr c)"

definition writeFileSync :: "files \<Rightarrow> string \<Rightarrow> string \<Rightarrow> files" where
  "writeFileSync fs path content = fs(path \<mapsto> content)"

definition copyFileSync :: "files \<Rightarrow> string \<Rightarrow> string \<Rightarrow> string + files" where
  "copyFileSync fs src dest =
     (case fs src of
        None \<Rightarrow> Inl (enoent ''copyfile'' src @ '' -> '' @ [CHR 0x27] @ dest @ [CHR 0x27])
      | Some c \<Rightarrow> Inr (fs(dest \<mapsto> c)))"

definition unlinkSync :: "files \<Rightarrow> string \<Rightarrow> string + files" where
  "unlinkSync fs path =
     (case fs path of None \<Rightarrow> Inl (enoent ''unlink'' path) | Some c \<Rightarrow> Inr (fs(path := None)))"

definition existsSync :: "files \<Rightarrow> string \<Rightarrow> bool" where
  "existsSync fs path = (fs path \<noteq> None)"

record validation =
  valid :: bool
  v_errors :: "string list"
  v_warnings :: "string list"

definition validate_content :: "string \<Rightarrow> string option \<Rightarrow> validation" where
  \<comment> \<open>\<open>validateFile\<close> once the file is read; \<open>originalContent\<close> is \<open>None\<close> for \<open>null\<close>,
      and the guard \<open>if (originalContent)\<close> is false on \<open>null\<close> and on the empty string\<close>
  "validate_content content originalContent =
     (let v0 = \<lparr>errors = [], warnings = []\<rparr>;
          v1 = snd (validateFrontMatter content v0);
          v2 = snd (validateMarkdownStructure content v1);
          v6 = (case originalContent of
                  None \<Rightarrow> v2
                | Some original \<Rightarrow>
                    if original = [] then v2
                    else (let v3 = snd (validateGistPreservation original content v2);
                              v4 = snd (validateHeadingsPreservation original content v3);
                              v5 = snd (validateLinksPreservation original content v4)
                          in snd (validateContentLength original content v5)))
      in \<lparr>valid = (errors v6 = []), v_errors = errors v6, v_warnings = warnings v6\<rparr>)"

definition validateFile :: "files \<Rightarrow> string \<Rightarrow> string option \<Rightarrow> validation" where
  "validateFile fs filePath originalContent =
     (case readFileSync fs filePath of
        Inl message \<Rightarrow>
          \<lparr>valid = False, v_errors = [''Failed to validate file: '' @ message], v_warnings = []\<rparr>
      | Inr content \<Rightarrow> validate_content content originalContent)"

definition createBackup :: "nat \<Rightarrow> files \<Rightarrow> string \<Rightarrow> string + (string \<times> files)" where
  \<comment> \<open>\<open>now\<close> is the value of \<open>Date.now()\<close>; the result is the backup path and the files\<close>
  "createBackup now fs filePath =
     (let backupPath = filePath @ ''.backup.'' @ show_nat now
      in case copyFileSync fs filePath backupPath of
           Inl e \<Rightarrow> Inl e
         | Inr fs' \<Rightarrow> Inr (backupPath, fs'))"

definition restoreFromBackup :: "files \<Rightarrow> string \<Rightarrow> string \<Rightarrow> string + files" where
  "restoreFromBackup fs filePath backupPath =
     (case copyFileSync fs backupPath filePath of
        Inl e \<Rightarrow> Inl e
      | Inr fs' \<Rightarrow> unlinkSync fs' backupPath)"

section \<open>llm-rewriter.js\<close>

text \<open>
  One pass through the \<open>try\<close> block of \<open>callLLM\<close> either throws (\<open>fetch\<close> rejects, the
  response is not \<open>ok\<close>, \<open>response.json()\<close> rejects, or \<open>data.choices[0].message\<close> is
  missing), which leaves the message of the error, or returns the value of
  \<open>data.choices[0].message.content\<close>, which need not be a string. What the service
  answers is not the program's to decide: it is the parameter \<open>client\<close>, asked with the
  attempt's number.
\<close>

datatype jsval = Str string | Undefined | Null | NonString

datatype attempt = Fails string | Replies jsval

datatype event =
    Fetch nat      \<comment> \<open>the call of \<open>fetch\<close> in the attempt of this number\<close>
  | Sleep nat      \<comment> \<open>a \<open>setTimeout\<close> of this many milliseconds that is awaited\<close>

function callLLM_from :: "(nat \<Rightarrow> attempt) \<Rightarrow> int \<Rightarrow> nat \<Rightarrow> event list \<times> (string + jsval)" where
  \<comment> \<open>the loop \<open>for (let attempt = ...; attempt <= maxRetries; attempt++)\<close> from a given
      value of \<open>attempt\<close>: what happened, and the error thrown (\<open>Inl\<close>) or the value
      returned; leaving the loop returns \<open>undefined\<close>\<close>
  "callLLM_from client maxRetries attempt =
     (if int attempt \<le> maxRetries then
        (case client attempt of
           Replies content \<Rightarrow> ([Fetch attempt], Inr content)
         | Fails message \<Rightarrow>
             if int attempt = maxRetries
             then ([Fetch attempt], Inl (''LLM API failed after '' @ show_int maxRetries
                     @ '' attempts: '' @ message))
             else (let (evs, res) = callLLM_from client maxRetries (attempt + 1)
                   in (Fetch attempt # Sleep (2 ^ attempt * 1000) # evs, res)))
      else ([], Inr Undefined))"
  by pat_completeness auto
termination
  by (relation "measure (\<lambda>(client, maxRetries, attempt). nat (maxRetries + 1 - int attempt))") auto

declare callLLM_from.simps [simp del]

definition callLLM :: "(nat \<Rightarrow> attempt) \<Rightarrow> int \<Rightarrow> event list \<times> (string + jsval)" where
  "callLLM client maxRetries = callLLM_from client maxRetries 1"

datatype role = Opening | Closing

text \<open>
  \<open>rewriteOpeningParagraph\<close> and \<open>rewriteClosingParagraph\<close> build the two messages from
  the paragraph, the title and the platform and call \<open>callLLM\<close> with the default of three
  attempts; the request is identified by those arguments.
\<close>

type_synonym request = "role \<times> string \<times> string \<times> string"

section \<open>content-processor.js\<close>

datatype status = Success | Error

record processing_result =
  r_filePath :: string
  r_fileName :: string
  r_title :: "string option"
  r_platform :: "string option"
  r_changes :: "string list option"
  r_error :: "string option"
  r_status :: status

record summary =
  total :: nat
  successful :: nat
  failed :: nat

record report =
  timestamp :: string
  summary :: summary
  report_files :: "processing_result list"

record env =
  absolute :: "string \<Rightarrow> string"
    \<comment> \<open>\<open>path.isAbsolute(p) ? p : path.resolve(__dirname, '../..', p)\<close>\<close>
  basename :: "string \<Rightarrow> string"          \<comment> \<open>\<open>path.basename\<close>\<close>
  date_now :: nat                             \<comment> \<open>\<open>Date.now()\<close>\<close>
  date_today :: string                        \<comment> \<open>\<open>new Date().toISOString().split('T')[0]\<close>\<close>
  iso_now :: string                           \<comment> \<open>\<open>new Date().toISOString()\<close>\<close>
  llm :: "nat \<Rightarrow> request \<Rightarrow> attempt"
    \<comment> \<open>the outcome of the \<open>n\<close>-th call of \<open>fetch\<close> of the run, given the request\<close>
  stringify :: "report \<Rightarrow> string"           \<comment> \<open>\<open>JSON.stringify(report, null, 2)\<close>\<close>

record world =
  disk :: files
  processedFiles :: "processing_result list"
  fetches :: nat                              \<comment> \<open>the calls of \<open>fetch\<close> made so far\<close>
  trace :: "event list"

definition parse_front_matter_rx :: "atom list" where
  \<comment> \<open>\<open>/^---\r?\n([\s\S]*?)\r?\n---\r?\n([\s\S]*)$/\<close>\<close>
  "parse_front_matter_rx =
     [Bos, Lit ''---'', optional (is_char CHR 0x0D), Lit ''\<newline>'',
      Mark, lazy_star any_char, Mark,
      optional (is_char CHR 0x0D), Lit ''\<newline>---'', optional (is_char CHR 0x0D), Lit ''\<newline>'',
      Mark, star any_char, Mark, Eos]"

definition parseFrontMatter :: "string \<Rightarrow> string + (string \<times> string)" where
  "parseFrontMatter content =
     (case exec parse_front_matter_rx content of
        None \<Rightarrow> Inl ''No front matter found in file''
      | Some frontMatterMatch \<Rightarrow> Inr (groups frontMatterMatch ! 0, groups frontMatterMatch ! 1))"

definition date_rx :: "atom list" where
  \<comment> \<open>\<open>\d{4}-\d{2}-\d{2}\<close>\<close>
  "date_rx = [exactly 4 js_digit, Lit ''-'', exactly 2 js_digit, Lit ''-'', exactly 2 js_digit]"

definition updateLastMod :: "string \<Rightarrow> string \<Rightarrow> string" where
  "updateLastMod today frontMatter =
     (if includes_str frontMatter ''lastmod:''
      then replace_rx ([Lit ''lastmod:'', star js_space] @ date_rx) frontMatter (''lastmod: '' @ today)
      else replace_rx ([Mark, Lit ''date:'', star js_space] @ date_rx @ [Mark]) frontMatter
             (''$1\<newline>lastmod: '' @ today))"

definition heading2_rx :: "atom list" where
  \<comment> \<open>\<open>/^## /m\<close>\<close>
  "heading2_rx = [Bol, Lit ''## '']"

definition gist_open_rx :: "atom list" where
  \<comment> \<open>\<open>/\{\{<\s*gist/\<close>\<close>
  "gist_open_rx = [Lit ''{{<'', star js_space, Lit ''gist'']"

definition extractOpeningParagraph :: "string \<Rightarrow> string" where
  "extractOpeningParagraph content =
     (let firstHeadingMatch = exec heading2_rx content;
          firstGistMatch = exec gist_open_rx content;
          endPosition =
            (case (firstHeadingMatch, firstGistMatch) of
               (Some h, Some g) \<Rightarrow> min (index h) (index g)
             | (Some h, None) \<Rightarrow> index h
             | (None, Some g) \<Rightarrow> index g
             | (None, None) \<Rightarrow> length content)
      in trim (take endPosition content))"

definition blank_line_rx :: "atom list" where
  \<comment> \<open>\<open>/\n\s*\n/\<close>\<close>
  "blank_line_rx = [Lit ''\<newline>'', star js_space, Lit ''\<newline>'']"

definition heading_start_rx :: "atom list" where
  \<comment> \<open>\<open>/^#+\s/\<close>\<close>
  "heading_start_rx = [Bos, plus (is_char CHR ''#''), exactly 1 js_space]"

definition extractClosingParagraphs :: "string \<Rightarrow> string list" where
  "extractClosingParagraphs content =
     (let gistMatches = match_all gist_rx content
      in if length gistMatches = 0 then []
         else (let lastGist = gistMatches ! (length gistMatches - 1);
                   afterLastGist = drop (index lastGist + length (matched lastGist)) content
               in filter (\<lambda>p. length p > 0 \<and> \<not> test heading_start_rx p)
                    (map trim (split blank_line_rx afterLastGist))))"

definition title_rx :: "atom list" where
  \<comment> \<open>\<open>/title:\s*"([^"]+)"/\<close>\<close>
  "title_rx = [Lit ''title:'', star js_space, Lit [CHR 0x22], Mark, plus (not_char CHR 0x22), Mark,
     Lit [CHR 0x22]]"

definition platform_rx :: "atom list" where
  \<comment> \<open>\<open>/platformkey:\s*"([^"]+)"/\<close>\<close>
  "platform_rx = [Lit ''platformkey:'', star js_space, Lit [CHR 0x22], Mark,
     plus (not_char CHR 0x22), Mark, Lit [CHR 0x22]]"

definition is_fetch :: "event \<Rightarrow> bool" where
  "is_fetch ev = (case ev of Fetch n \<Rightarrow> True | Sleep n \<Rightarrow> False)"

definition rewriteParagraph :: "env \<Rightarrow> request \<Rightarrow> world \<Rightarrow> world \<times> (string + jsval)" where
  \<comment> \<open>\<open>rewriteOpeningParagraph\<close> and \<open>rewriteClosingParagraph\<close>: \<open>callLLM(messages)\<close>\<close>
  "rewriteParagraph e req w =
     (let (evs, res) = callLLM (\<lambda>attempt. llm e (fetches w + attempt) req) 3
      in (w\<lparr>fetches := fetches w + length (filter is_fetch evs), trace := trace w @ evs\<rparr>, res))"

definition delay :: "nat \<Rightarrow> world \<Rightarrow> world" where
  \<comment> \<open>\<open>await this.llmRewriter.delay(ms)\<close>, 2000 by default\<close>
  "delay ms w = w\<lparr>trace := trace w @ [Sleep ms]\<rparr>"

definition trim_of :: "string \<Rightarrow> jsval \<Rightarrow> string + string" where
  \<comment> \<open>\<open>x.trim()\<close> on the value of the variable \<open>x\<close>: a TypeError unless it is a string\<close>
  "trim_of x v =
     (case v of
        Str s \<Rightarrow> Inr (trim s)
      | Undefined \<Rightarrow> Inl ''Cannot read properties of undefined (reading 'trim')''
      | Null \<Rightarrow> Inl ''Cannot read properties of null (reading 'trim')''
      | NonString \<Rightarrow> Inl (x @ ''.trim is not a function''))"

definition rewrite_opening ::
  "env \<Rightarrow> string \<Rightarrow> string \<Rightarrow> string \<Rightarrow> string \<Rightarrow> world
     \<Rightarrow> world \<times> (string + (string \<times> string list))" where
  \<comment> \<open>the block \<open>if (openingParagraph) { ... }\<close>: the new content and the changes\<close>
  "rewrite_opening e title platform openingParagraph newContent w =
     (if openingParagraph = [] then (w, Inr (newContent, []))
      else (case rewriteParagraph e (Opening, openingParagraph, title, platform) w of
              (w1, Inl message) \<Rightarrow> (w1, Inl message)
            | (w1, Inr rewrittenOpening) \<Rightarrow>
                (case trim_of ''rewrittenOpening'' rewrittenOpening of
                   Inl message \<Rightarrow> (w1, Inl message)
                 | Inr trimmed \<Rightarrow>
                     (delay 2000 w1,
                      Inr (replace_str newContent openingParagraph trimmed, [''opening paragraph''])))))"

fun rewrite_closing ::
  "env \<Rightarrow> string \<Rightarrow> string \<Rightarrow> string list \<Rightarrow> string \<Rightarrow> world \<Rightarrow> world \<times> (string + string)" where
  \<comment> \<open>the loop over \<open>closingParagraphs\<close>, on the paragraphs still to rewrite\<close>
  "rewrite_closing e title platform [] newContent w = (w, Inr newContent)"
| "rewrite_closing e title platform (paragraph # ps) newContent w =
     (case rewriteParagraph e (Closing, paragraph, title, platform) w of
        (w1, Inl message) \<Rightarrow> (w1, Inl message)
      | (w1, Inr rewrittenClosing) \<Rightarrow>
          (case trim_of ''rewrittenClosing'' rewrittenClosing of
             Inl message \<Rightarrow> (w1, Inl message)
           | Inr trimmed \<Rightarrow>
               rewrite_closing e title platform ps (replace_str newContent paragraph trimmed)
                 (if ps \<noteq> [] then delay 2000 w1 else w1)))"

definition commit ::
  "env \<Rightarrow> string \<Rightarrow> string \<Rightarrow> string \<Rightarrow> files \<Rightarrow> files \<times> (string + validation)" where
  \<comment> \<open>from \<open>createBackup\<close> to the end of the inner \<open>try\<close> and its \<open>catch\<close>\<close>
  "commit e absolutePath originalContent newFileContent fs =
     (case createBackup (date_now e) fs absolutePath of
        Inl message \<Rightarrow> (fs, Inl message)
      | Inr (backupPath, fs0) \<Rightarrow>
          (let fs1 = writeFileSync fs0 absolutePath newFileContent;
               validation = validateFile fs1 absolutePath (Some originalContent);
               attempt =
                 (if \<not> valid validation
                  then (case restoreFromBackup fs1 absolutePath backupPath of
                          Inl message \<Rightarrow> (fs1, Inl message)
                        | Inr fs2 \<Rightarrow>
                            (fs2, Inl (''Validation failed: '' @ join '', '' (v_errors validation))))
                  else (case unlinkSync fs1 backupPath of
                          Inl message \<Rightarrow> (fs1, Inl message)
                        | Inr fs2 \<Rightarrow> (fs2, Inr validation)))
           in case attempt of
                (fs3, Inr validation) \<Rightarrow> (fs3, Inr validation)
              | (fs3, Inl message) \<Rightarrow>
                  if existsSync fs3 backupPath
                  then (case restoreFromBackup fs3 absolutePath backupPath of
                          Inl message' \<Rightarrow> (fs3, Inl message')
                        | Inr fs4 \<Rightarrow> (fs4, Inl message))
                  else (fs3, Inl message)))"

record draft =
  d_original :: string              \<comment> \<open>\<open>originalContent\<close>\<close>
  d_newFile :: string               \<comment> \<open>\<open>newFileContent\<close>\<close>
  d_title :: string
  d_platform :: string
  d_changes :: "string list"

definition prepare :: "env \<Rightarrow> string \<Rightarrow> world \<Rightarrow> world \<times> (string + draft option)" where
  \<comment> \<open>the outer \<open>try\<close> block of \<open>processArticle\<close> down to \<open>newFileContent\<close>: the error
      thrown (\<open>Inl\<close>), \<open>None\<close> where the block returns \<open>null\<close>, or what the rest of the
      block uses; the loop over the closing paragraphs does nothing on an empty array,
      which is the guard \<open>closingParagraphs.length > 0\<close> around it\<close>
  "prepare e absolutePath w =
     (case readFileSync (disk w) absolutePath of
        Inl message \<Rightarrow> (w, Inl message)
      | Inr originalContent \<Rightarrow>
     (case parseFrontMatter originalContent of
        Inl message \<Rightarrow> (w, Inl message)
      | Inr (frontMatter, content) \<Rightarrow>
     (case (exec title_rx frontMatter, exec platform_rx frontMatter) of
        (Some titleMatch, Some platformMatch) \<Rightarrow>
          (let title = groups titleMatch ! 0;
               platform = groups platformMatch ! 0;
               openingParagraph = extractOpeningParagraph content;
               closingParagraphs = extractClosingParagraphs content
           in if openingParagraph = [] \<and> length closingParagraphs = 0 then (w, Inr None)
              else
     (case rewrite_opening e title platform openingParagraph content w of
        (w1, Inl message) \<Rightarrow> (w1, Inl message)
      | (w1, Inr (newContent1, changes1)) \<Rightarrow>
     (case rewrite_closing e title platform closingParagraphs newContent1 w1 of
        (w2, Inl message) \<Rightarrow> (w2, Inl message)
      | (w2, Inr newContent) \<Rightarrow>
          (let changes =
                 (if length closingParagraphs > 0
                  then changes1 @ [show_nat (length closingParagraphs) @ '' closing paragraphs'']
                  else changes1);
               updatedFrontMatter = updateLastMod (date_today e) frontMatter;
               newFileContent =
                 ''---\<newline>'' @ updatedFrontMatter @ ''\<newline>---\<newline>'' @ newContent
           in (w2, Inr (Some \<lparr>d_original = originalContent, d_newFile = newFileContent,
                 d_title = title, d_platform = platform, d_changes = changes\<rparr>))))))
      | _ \<Rightarrow> (w, Inl ''Could not extract title or platform from front matter''))))"

definition process_try :: "env \<Rightarrow> string \<Rightarrow> world \<Rightarrow> world \<times> (string + processing_result option)" where
  \<comment> \<open>the whole outer \<open>try\<close> block: the error thrown or the value returned\<close>
  "process_try e absolutePath w =
     (case prepare e absolutePath w of
        (w2, Inl message) \<Rightarrow> (w2, Inl message)
      | (w2, Inr None) \<Rightarrow> (w2, Inr None)
      | (w2, Inr (Some d)) \<Rightarrow>
          (case commit e absolutePath (d_original d) (d_newFile d) (disk w2) of
             (fs, Inl message) \<Rightarrow> (w2\<lparr>disk := fs\<rparr>, Inl message)
           | (fs, Inr validation) \<Rightarrow>
               (let result = \<lparr>r_filePath = absolutePath, r_fileName = basename e absolutePath,
                      r_title = Some (d_title d), r_platform = Some (d_platform d),
                      r_changes = Some (d_changes d), r_error = None, r_status = Success\<rparr>
                in (w2\<lparr>disk := fs, processedFiles := processedFiles w2 @ [result]\<rparr>,
                    Inr (Some result)))))"

definition processArticle :: "env \<Rightarrow> string \<Rightarrow> world \<Rightarrow> world \<times> processing_result option" where
  "processArticle e filePath w =
     (let absolutePath = absolute e filePath
      in case process_try e absolutePath w of
           (w', Inr returned) \<Rightarrow> (w', returned)
         | (w', Inl message) \<Rightarrow>
             (let result = \<lparr>r_filePath = absolutePath, r_fileName = basename e filePath,
                    r_title = None, r_platform = None, r_changes = None,
                    r_error = Some message, r_status = Error\<rparr>
              in (w'\<lparr>processedFiles := processedFiles w' @ [result]\<rparr>, Some result)))"

fun processArticles :: "env \<Rightarrow> string list \<Rightarrow> world \<Rightarrow> world" where
  \<comment> \<open>the loop over \<open>articlePaths\<close>; what it returns is \<open>processedFiles\<close> of the result\<close>
  "processArticles e [] w = w"
| "processArticles e (articlePath # paths) w =
     (let w1 = fst (processArticle e articlePath w)
      in processArticles e paths (if paths \<noteq> [] then delay 3000 w1 else w1))"

definition generateReport :: "env \<Rightarrow> world \<Rightarrow> world \<times> report" where
  "generateReport e w =
     (let successful = filter (\<lambda>f. r_status f = Success) (processedFiles w);
          failed = filter (\<lambda>f. r_status f = Error) (processedFiles w);
          report = \<lparr>timestamp = iso_now e,
                    summary = \<lparr>total = length (processedFiles w), successful = length successful,
                                failed = length failed\<rparr>,
                    report_files = processedFiles w\<rparr>
      in (w\<lparr>disk := writeFileSync (disk w) ''processing-report.json'' (stringify e report)\<rparr>,
          report))"

section \<open>Notions of the specification\<close>

definition backoff_schedule :: "nat \<Rightarrow> nat \<Rightarrow> event list" where
  \<comment> \<open>attempts \<open>a\<close> to \<open>n\<close>, each but the last followed by a wait of \<open>2 ^ attempt\<close> seconds\<close>
  "backoff_schedule a n = concat (map (\<lambda>k. [Fetch k, Sleep (2 ^ k * 1000)]) [a ..< n]) @ [Fetch n]"

definition no_errors :: validator where
  \<comment> \<open>the validator as the constructor and the start of \<open>validateFile\<close> leave it\<close>
  "no_errors = \<lparr>errors = [], warnings = []\<rparr>"

fun lines_of :: "string \<Rightarrow> string list" where
  \<comment> \<open>the lines of a text, which line feeds separate\<close>
  "lines_of [] = [[]]"
| "lines_of (c # cs) =
     (if c = CHR 0x0A then [] # lines_of cs
      else (case lines_of cs of l # ls \<Rightarrow> (c # l) # ls | [] \<Rightarrow> [[c]]))"

subsection \<open>Sample documents\<close>

definition subtitle_fm :: string where
  "subtitle_fm = ''subtitle: \"A guide\"\<newline>productname: P\<newline>productkey: K\<newline>platformkey: \"java\"\<newline>date: 2024-01-05\<newline>lastmod: 2024-02-01\<newline>type: blog''"

definition subtitle_doc :: string where
  "subtitle_doc = ''---\<newline>'' @ subtitle_fm @ ''\<newline>---\<newline>Body''"

definition bad_dates_fm :: string where
  "bad_dates_fm = ''title: \"T\"\<newline>productname: P\<newline>productkey: K\<newline>platformkey: \"java\"\<newline>date: 05/01/2024\<newline>lastmod: yesterday\<newline>type: blog''"

definition bad_dates_doc :: string where
  "bad_dates_doc = ''---\<newline>'' @ bad_dates_fm @ ''\<newline>---\<newline>Body''"

text \<open>The validator after the checks of the candidate alone, and after the gist check.\<close>

definition structure_stage :: "string \<Rightarrow> validator" where
  "structure_stage content =
     snd (validateMarkdownStructure content (snd (validateFrontMatter content no_errors)))"

definition gist_stage :: "string \<Rightarrow> string \<Rightarrow> validator" where
  "gist_stage original content = snd (validateGistPreservation original content (structure_stage content))"

definition sample_fm :: string where
  "sample_fm = ''title: \"T\"\<newline>productname: P\<newline>productkey: K\<newline>platformkey: \"java\"\<newline>date: 2024-01-05\<newline>lastmod: 2024-02-01\<newline>type: blog''"

definition sample_body :: string where
  "sample_body = ''Intro text.\<newline>\<newline>## Heading\<newline>{{< gist a >}}\<newline>\<newline>Closing one.\<newline>\<newline>Closing two.''"

definition sample_doc :: string where
  "sample_doc = ''---\<newline>'' @ sample_fm @ ''\<newline>---\<newline>'' @ sample_body"

definition backup_path :: "env \<Rightarrow> string \<Rightarrow> string" where
  \<comment> \<open>the path \<open>createBackup\<close> copies the file to\<close>
  "backup_path e absolutePath = absolutePath @ ''.backup.'' @ show_nat (date_now e)"

subsection \<open>A sample run\<close>

text \<open>
  An environment whose rewriting service answers every request with a sentence that
  repeats the gist shortcode, and a world whose only file is the given document.
\<close>

definition demo_reply :: string where
  "demo_reply = ''See {{< gist a >}} again.''"

definition demo_env :: env where
  "demo_env = \<lparr>absolute = (\<lambda>p. ''/repo/'' @ p), basename = (\<lambda>p. p), date_now = 1700000000000,
     date_today = ''2026-11-02'', iso_now = ''2026-11-02T02:00:15.000Z'',
     llm = (\<lambda>n req. Replies (Str demo_reply)),
     stringify = (\<lambda>r. ''{}'')\<rparr>"

definition demo_world :: "string \<Rightarrow> world" where
  "demo_world doc = \<lparr>disk = [''/repo/a.md'' \<mapsto> doc], processedFiles = [], fetches = 0, trace = []\<rparr>"

definition demo_draft :: draft where
  "demo_draft = \<lparr>d_original = sample_doc,
     d_newFile = ''---\<newline>'' @ updateLastMod ''2026-11-02'' sample_fm @ ''\<newline>---\<newline>''
       @ replace_str (replace_str (replace_str sample_body ''Intro text.'' (trim demo_reply))
           ''Closing one.'' (trim demo_reply)) ''Closing two.'' (trim demo_reply),
     d_title = ''T'', d_platform = ''java'',
     d_changes = [''opening paragraph'', ''2 closing paragraphs'']\<rparr>"

definition headings_only_body :: string where
  "headings_only_body = ''## Heading\<newline>Text under it.''"

definition headings_only_doc :: string where
  "headings_only_doc = ''---\<newline>'' @ sample_fm @ ''\<newline>---\<newline>'' @ headings_only_body"

subsection \<open>The end of the opening paragraph\<close>

definition heading2_at :: "string \<Rightarrow> nat \<Rightarrow> bool" where
  \<comment> \<open>a line that begins with the second-level heading token starts at offset \<open>i\<close>\<close>
  "heading2_at body i =
     ((i = 0 \<or> line_terminator (body ! (i - 1))) \<and> prefix ''## '' (drop i body))"

definition gist_open_at :: "string \<Rightarrow> nat \<Rightarrow> bool" where
  \<comment> \<open>an opening token of the gist shortcode starts at offset \<open>i\<close>\<close>
  "gist_open_at body i =
     (prefix ''{{<'' (drop i body) \<and> prefix ''gist'' (dropWhile js_space (drop 3 (drop i body))))"

fun first_from :: "(nat \<Rightarrow> bool) \<Rightarrow> nat \<Rightarrow> nat \<Rightarrow> nat option" where
  \<comment> \<open>the least of the \<open>n\<close> offsets from \<open>i\<close> on at which \<open>P\<close> holds\<close>
  "first_from P i 0 = None"
| "first_from P i (Suc n) = (if P i then Some i else first_from P (Suc i) n)"

definition first_offset :: "(nat \<Rightarrow> bool) \<Rightarrow> string \<Rightarrow> nat option" where
  "first_offset P body = first_from P 0 (Suc (length body))"

definition opening_end :: "string \<Rightarrow> nat" where
  \<comment> \<open>the smaller of the two first offsets, the one that exists, or the whole body\<close>
  "opening_end body =
     (case (first_offset (heading2_at body) body, first_offset (gist_open_at body) body) of
        (Some h, Some g) \<Rightarrow> min h g
      | (Some h, None) \<Rightarrow> h
      | (None, Some g) \<Rightarrow> g
      | (None, None) \<Rightarrow> length body)"

subsection \<open>Paragraphs\<close>

definition blank :: "string \<Rightarrow> bool" where
  \<comment> \<open>a blank line: white space only\<close>
  "blank l = list_all js_space l"

fun runs :: "string list \<Rightarrow> string list \<Rightarrow> string list list" where
  \<comment> \<open>the maximal runs of lines that are not blank; \<open>cur\<close> is the run being read\<close>
  "runs cur [] = (if cur = [] then [] else [cur])"
| "runs cur (l # ls) =
     (if blank l then (if cur = [] then runs [] ls else cur # runs [] ls)
      else runs (cur @ [l]) ls)"

definition paragraphs :: "string \<Rightarrow> string list" where
  \<comment> \<open>the paragraphs of a text: its maximal runs of non-blank lines, which blank lines separate\<close>
  "paragraphs s = map (join ''\<newline>'') (runs [] (lines_of s))"

definition heading_start :: "string \<Rightarrow> bool" where
  \<comment> \<open>the text begins with a heading marker: one or more \<open>#\<close>, then white space\<close>
  "heading_start p =
     (prefix ''#'' p \<and>
      (case dropWhile (is_char CHR ''#'') p of [] \<Rightarrow> False | c # cs \<Rightarrow> js_space c))"

subsection \<open>Auxiliary notions of the proofs\<close>

fun last_newline_rest :: "string \<Rightarrow> string option" where
  \<comment> \<open>what follows the last line feed of the white space a text starts with\<close>
  "last_newline_rest [] = None"
| "last_newline_rest (c # cs) =
     (if js_space c
      then (case last_newline_rest cs of
              Some r \<Rightarrow> Some r
            | None \<Rightarrow> if c = CHR 0x0A then Some cs else None)
      else None)"

definition following :: "string list \<Rightarrow> string" where
  \<comment> \<open>the text after a line that the lines \<open>ls\<close> follow\<close>
  "following ls = concat (map ((#) CHR 0x0A) ls)"

fun skip_blank :: "string list \<Rightarrow> string list" where
  \<comment> \<open>the lines from the first that is not blank or is the last\<close>
  "skip_blank [] = []"
| "skip_blank [l] = [l]"
| "skip_blank (l # l' # ls) = (if blank l then skip_blank (l' # ls) else l # l' # ls)"

section \<open>The retry loop of \<open>callLLM\<close>\<close>

lemma callLLM_from_all_fail:
  assumes fails: "\<And>n. client n = Fails (msg n)"
  shows "a \<le> n \<Longrightarrow> callLLM_from client (int n) a =
     (backoff_schedule a n, Inl (''LLM API failed after '' @ show_int (int n) @ '' attempts: '' @ msg n))"
proof (induction "n - a" arbitrary: a)
  case 0
  then have "a = n" by simp
  then show ?case
    by (subst callLLM_from.simps) (simp add: fails backoff_schedule_def)
next
  case (Suc d)
  then have lt: "a < n" and d: "d = n - Suc a" and le: "Suc a \<le> n" by simp_all
  have up: "[a ..< n] = a # [Suc a ..< n]" using lt by (simp add: upt_conv_Cons)
  show ?case
    using lt Suc.hyps(1) [OF d le]
    by (subst callLLM_from.simps) (simp add: fails backoff_schedule_def up)
qed

text \<open>
  Claim C5. When \<open>maxRetries\<close> is at least 1 and every attempt of the client fails,
  \<open>callLLM\<close> fetches in attempts 1 to \<open>maxRetries\<close> and in no other, waits
  \<open>2 ^ attempt\<close> seconds after each failed attempt but the last, and then throws an error
  whose message ends with the message of the last attempt's error; the attempts counted
  are exactly \<open>maxRetries\<close>.
\<close>

theorem callLLM_retry_ceiling:
  assumes "1 \<le> maxRetries" and "\<forall>n. client n = Fails (msg n)"
  shows "callLLM client maxRetries =
           (backoff_schedule 1 (nat maxRetries),
            Inl (''LLM API failed after '' @ show_int maxRetries @ '' attempts: ''
                  @ msg (nat maxRetries)))
         \<and> length (filter is_fetch (fst (callLLM client maxRetries))) = nat maxRetries"
proof -
  have n: "int (nat maxRetries) = maxRetries" and one: "1 \<le> nat maxRetries" using assms(1) by simp_all
  have eq: "callLLM client maxRetries =
           (backoff_schedule 1 (nat maxRetries),
            Inl (''LLM API failed after '' @ show_int maxRetries @ '' attempts: ''
                  @ msg (nat maxRetries)))"
    using callLLM_from_all_fail [of client msg 1 "nat maxRetries"] assms(2) one
    unfolding callLLM_def n by simp
  have cnt: "length (filter is_fetch (backoff_schedule a m)) = Suc m - a" if "a \<le> m" for a m
    using that
  proof (induction "m - a" arbitrary: a)
    case 0 then show ?case by (simp add: backoff_schedule_def is_fetch_def)
  next
    case (Suc d)
    then have lt: "a < m" and d: "d = m - Suc a" and le: "Suc a \<le> m" by simp_all
    have up: "[a ..< m] = a # [Suc a ..< m]" using lt by (simp add: upt_conv_Cons)
    from Suc.hyps(1) [OF d le] lt show ?case
      by (simp add: backoff_schedule_def up is_fetch_def)
  qed
  from eq cnt [OF one] show ?thesis by simp
qed

theorem callLLM_retry_ceiling_witness:
  "callLLM (\<lambda>n. Fails (show_nat n)) 3 =
     ([Fetch 1, Sleep 2000, Fetch 2, Sleep 4000, Fetch 3], Inl ''LLM API failed after 3 attempts: 3'')
   \<and> length (filter is_fetch (fst (callLLM (\<lambda>n. Fails (show_nat n)) 3))) = 3"
proof -
  have up: "[Suc 0 ..< 3] = [Suc 0, 2]" by (simp add: upt_conv_Cons)
  have s3: "show_nat 3 = ''3''" by (simp add: show_nat.simps digit_char_def)
  have "(1::int) \<le> 3" by simp
  moreover have "\<forall>n. (\<lambda>n. Fails (show_nat n)) n = Fails (show_nat n)" by simp
  ultimately show ?thesis
    using callLLM_retry_ceiling [of 3 "\<lambda>n. Fails (show_nat n)" show_nat]
    by (simp add: backoff_schedule_def up show_int_def s3 is_fetch_def)
qed

text \<open>
  Claim C9. When \<open>maxRetries\<close> is below 1, \<open>callLLM\<close> makes no attempt, throws nothing
  and returns \<open>undefined\<close>.
\<close>

theorem callLLM_no_attempt:
  assumes "maxRetries < 1"
  shows "callLLM client maxRetries = ([], Inr Undefined)"
  using assms by (simp add: callLLM_def callLLM_from.simps)

theorem callLLM_no_attempt_witness:
  "(0::int) < 1 \<and> callLLM (\<lambda>n. Fails ''down'') 0 = ([], Inr Undefined)"
  using callLLM_no_attempt [of 0 "\<lambda>n. Fails ''down''"] by simp

section \<open>Facts about the matcher\<close>

lemma prev_after_Suc: "prev_after (Suc k) p (c # cs) = prev_after k (Some c) cs"
  by (cases k) (simp_all add: prev_after_def)

lemma prev_after_0: "prev_after 0 p s = p"
  by (simp add: prev_after_def)

lemma search_Some_iff:
  "search rx p s i = Some r \<longleftrightarrow>
     (\<exists>k mr. k \<le> length s \<and> rx_match rx (prev_after k p s) (drop k s) = Some mr
        \<and> r = mk_result (i + k) (drop k s) mr
        \<and> (\<forall>j<k. rx_match rx (prev_after j p s) (drop j s) = None))"
proof (induction s arbitrary: p i)
  case Nil
  show ?case by (auto simp: prev_after_0)
next
  case (Cons c cs)
  show ?case
  proof (cases "rx_match rx p (c # cs)")
    case (Some mr)
    show ?thesis
    proof
      assume "search rx p (c # cs) i = Some r"
      with Some have "r = mk_result i (c # cs) mr" by simp
      with Some show "\<exists>k mr. k \<le> length (c # cs) \<and> rx_match rx (prev_after k p (c # cs)) (drop k (c # cs)) = Some mr
        \<and> r = mk_result (i + k) (drop k (c # cs)) mr
        \<and> (\<forall>j<k. rx_match rx (prev_after j p (c # cs)) (drop j (c # cs)) = None)"
        by (intro exI [of _ 0] exI [of _ mr]) (simp add: prev_after_0)
    next
      assume "\<exists>k mr. k \<le> length (c # cs) \<and> rx_match rx (prev_after k p (c # cs)) (drop k (c # cs)) = Some mr
        \<and> r = mk_result (i + k) (drop k (c # cs)) mr
        \<and> (\<forall>j<k. rx_match rx (prev_after j p (c # cs)) (drop j (c # cs)) = None)"
      then obtain k mr' where k: "rx_match rx (prev_after k p (c # cs)) (drop k (c # cs)) = Some mr'"
        "r = mk_result (i + k) (drop k (c # cs)) mr'"
        "\<forall>j<k. rx_match rx (prev_after j p (c # cs)) (drop j (c # cs)) = None" by blast
      have "k = 0"
      proof (rule ccontr)
        assume "k \<noteq> 0"
        then have "rx_match rx (prev_after 0 p (c # cs)) (drop 0 (c # cs)) = None" using k(3) by blast
        with Some show False by (simp add: prev_after_0)
      qed
      with k Some show "search rx p (c # cs) i = Some r" by (simp add: prev_after_0)
    qed
  next
    case None
    have "search rx p (c # cs) i = Some r \<longleftrightarrow> search rx (Some c) cs (Suc i) = Some r"
      using None by simp
    also have "\<dots> \<longleftrightarrow> (\<exists>k mr. k \<le> length cs \<and> rx_match rx (prev_after k (Some c) cs) (drop k cs) = Some mr
        \<and> r = mk_result (Suc i + k) (drop k cs) mr
        \<and> (\<forall>j<k. rx_match rx (prev_after j (Some c) cs) (drop j cs) = None))"
      by (rule Cons.IH)
    also have "\<dots> \<longleftrightarrow> (\<exists>k mr. k \<le> length (c # cs) \<and> rx_match rx (prev_after k p (c # cs)) (drop k (c # cs)) = Some mr
        \<and> r = mk_result (i + k) (drop k (c # cs)) mr
        \<and> (\<forall>j<k. rx_match rx (prev_after j p (c # cs)) (drop j (c # cs)) = None))"
      (is "?L \<longleftrightarrow> ?R")
    proof
      assume ?L
      then obtain k mr where k: "k \<le> length cs" "rx_match rx (prev_after k (Some c) cs) (drop k cs) = Some mr"
        "r = mk_result (Suc i + k) (drop k cs) mr"
        "\<forall>j<k. rx_match rx (prev_after j (Some c) cs) (drop j cs) = None" by blast
      have "\<forall>j<Suc k. rx_match rx (prev_after j p (c # cs)) (drop j (c # cs)) = None"
      proof (intro allI impI)
        fix j assume "j < Suc k"
        then show "rx_match rx (prev_after j p (c # cs)) (drop j (c # cs)) = None"
          using k(4) None by (cases j) (simp_all add: prev_after_0 prev_after_Suc)
      qed
      with k show ?R
        by (intro exI [of _ "Suc k"] exI [of _ mr]) (simp add: prev_after_Suc)
    next
      assume ?R
      then obtain k mr where k: "k \<le> length (c # cs)"
        "rx_match rx (prev_after k p (c # cs)) (drop k (c # cs)) = Some mr"
        "r = mk_result (i + k) (drop k (c # cs)) mr"
        "\<forall>j<k. rx_match rx (prev_after j p (c # cs)) (drop j (c # cs)) = None" by blast
      from k(2) None obtain k' where k': "k = Suc k'" by (cases k) (simp_all add: prev_after_0)
      have "\<forall>j<k'. rx_match rx (prev_after j (Some c) cs) (drop j cs) = None"
      proof (intro allI impI)
        fix j assume "j < k'"
        then have "Suc j < k" using k' by simp
        with k(4) have "rx_match rx (prev_after (Suc j) p (c # cs)) (drop (Suc j) (c # cs)) = None" by blast
        then show "rx_match rx (prev_after j (Some c) cs) (drop j cs) = None" by (simp add: prev_after_Suc)
      qed
      with k k' show ?L
        by (intro exI [of _ k'] exI [of _ mr]) (simp add: prev_after_Suc)
    qed
    finally show ?thesis .
  qed
qed

lemma search_None_iff:
  "search rx p s i = None \<longleftrightarrow> (\<forall>k \<le> length s. rx_match rx (prev_after k p s) (drop k s) = None)"
proof (induction s arbitrary: p i)
  case Nil
  show ?case by (simp add: prev_after_0)
next
  case (Cons c cs)
  show ?case
  proof (cases "rx_match rx p (c # cs)")
    case (Some mr)
    then have "\<not> (\<forall>k \<le> length (c # cs). rx_match rx (prev_after k p (c # cs)) (drop k (c # cs)) = None)"
      by (auto intro!: exI [of _ 0] simp: prev_after_0)
    with Some show ?thesis by simp
  next
    case None
    have "(\<forall>k \<le> length (c # cs). rx_match rx (prev_after k p (c # cs)) (drop k (c # cs)) = None)
      \<longleftrightarrow> (\<forall>k \<le> length cs. rx_match rx (prev_after k (Some c) cs) (drop k cs) = None)" (is "?A \<longleftrightarrow> ?B")
    proof
      assume a: ?A
      show ?B
      proof (intro allI impI)
        fix k assume "k \<le> length cs"
        then have "Suc k \<le> length (c # cs)" by simp
        with a have "rx_match rx (prev_after (Suc k) p (c # cs)) (drop (Suc k) (c # cs)) = None" by blast
        then show "rx_match rx (prev_after k (Some c) cs) (drop k cs) = None" by (simp add: prev_after_Suc)
      qed
    next
      assume b: ?B
      show ?A
      proof (intro allI impI)
        fix k assume "k \<le> length (c # cs)"
        then show "rx_match rx (prev_after k p (c # cs)) (drop k (c # cs)) = None"
          using b None by (cases k) (simp_all add: prev_after_0 prev_after_Suc)
      qed
    qed
    with None Cons.IH [of "Some c" "Suc i"] show ?thesis by simp
  qed
qed

lemma counts_exactly: "counts n (min n k) True = (if n \<le> k then [n] else [])"
  by (auto simp: counts_def min_def)

lemma rx_match_exactly:
  "rx_match (exactly n c # as) p s =
     (if n \<le> length (takeWhile c s) then rx_match as (prev_after n p s) (drop n s) else None)"
  by (simp add: counts_exactly Let_def split: option.splits)

lemma first_some_None_iff: "first_some f xs = None \<longleftrightarrow> (\<forall>x \<in> set xs. f x = None)"
  by (induction xs) (auto split: option.splits)

lemma first_some_append:
  "first_some f (xs @ ys) = (case first_some f xs of Some y \<Rightarrow> Some y | None \<Rightarrow> first_some f ys)"
  by (induction xs) (auto split: option.splits)

lemma first_some_only:
  assumes "\<And>x. x \<in> set xs \<Longrightarrow> x \<noteq> k \<Longrightarrow> f x = None" and "k \<in> set xs"
  shows "first_some f xs = f k"
  using assms
proof (induction xs)
  case Nil then show ?case by simp
next
  case (Cons x xs)
  show ?case
  proof (cases "x = k")
    case True
    show ?thesis
    proof (cases "f k")
      case None
      have "\<forall>y \<in> set xs. f y = None" using Cons.prems(1) None by (metis list.set_intros(2))
      then have "first_some f xs = None" by (simp add: first_some_None_iff)
      with True None show ?thesis by simp
    next
      case (Some y) with True show ?thesis by simp
    qed
  next
    case False
    then have "f x = None" using Cons.prems(1) by simp
    moreover have "k \<in> set xs" using Cons.prems(2) False by auto
    ultimately show ?thesis using Cons.IH Cons.prems(1) by simp
  qed
qed

lemma set_counts: "set (counts lo hi g) = {k. lo \<le> k \<and> k \<le> hi}"
  by (auto simp: counts_def)

lemma rx_match_Lit_Cons_None:
  "t \<noteq> [] \<Longrightarrow> hd t \<noteq> a \<Longrightarrow> rx_match (Lit (a # l) # as) q t = None"
  by (cases t) simp_all

lemma rx_match_RepD:
  assumes "rx_match (Rep c lo hi g # as) p s = Some mr"
  shows "\<exists>k. lo \<le> k \<and> k \<le> length (takeWhile c s)
           \<and> rx_match as (prev_after k p s) (drop k s) = Some mr"
proof -
  from assms obtain k where k: "k \<in> set (counts lo (case hi of None \<Rightarrow> length (takeWhile c s)
      | Some h \<Rightarrow> min h (length (takeWhile c s))) g)"
    "rx_match as (prev_after k p s) (drop k s) = Some mr"
    by (auto simp: Let_def dest!: first_some_SomeD)
  from k(1) have "lo \<le> k \<and> k \<le> length (takeWhile c s)"
    by (cases hi) (auto simp: set_counts)
  with k(2) show ?thesis by blast
qed

lemma rx_match_LitD:
  "rx_match (Lit l # as) p s = Some mr \<Longrightarrow>
     prefix l s \<and> rx_match as (prev_after (length l) p s) (drop (length l) s) = Some mr"
  by (simp split: if_splits)

lemma takeWhile_SucD:
  "Suc n \<le> length (takeWhile c s) \<Longrightarrow> \<exists>x xs. s = x # xs \<and> c x \<and> n \<le> length (takeWhile c xs)"
  by (cases s) (auto split: if_splits)

lemma digits4D:
  assumes "4 \<le> length (takeWhile c s)"
  shows "\<exists>a b d e r. s = a # b # d # e # r \<and> c a \<and> c b \<and> c d \<and> c e"
proof -
  from assms have "Suc 3 \<le> length (takeWhile c s)" by simp
  then obtain a s1 where 1: "s = a # s1" "c a" "3 \<le> length (takeWhile c s1)" by (blast dest: takeWhile_SucD)
  then have "Suc 2 \<le> length (takeWhile c s1)" by simp
  then obtain b s2 where 2: "s1 = b # s2" "c b" "2 \<le> length (takeWhile c s2)" by (blast dest: takeWhile_SucD)
  then have "Suc 1 \<le> length (takeWhile c s2)" by simp
  then obtain d s3 where 3: "s2 = d # s3" "c d" "1 \<le> length (takeWhile c s3)" by (blast dest: takeWhile_SucD)
  then have "Suc 0 \<le> length (takeWhile c s3)" by simp
  then obtain e s4 where 4: "s3 = e # s4" "c e" by (blast dest: takeWhile_SucD)
  from 1 2 3 4 show ?thesis by blast
qed

lemma digits2D:
  assumes "2 \<le> length (takeWhile c s)"
  shows "\<exists>a b r. s = a # b # r \<and> c a \<and> c b"
proof -
  from assms have "Suc 1 \<le> length (takeWhile c s)" by simp
  then obtain a s1 where 1: "s = a # s1" "c a" "1 \<le> length (takeWhile c s1)" by (blast dest: takeWhile_SucD)
  then have "Suc 0 \<le> length (takeWhile c s1)" by simp
  then obtain b s2 where 2: "s1 = b # s2" "c b" by (blast dest: takeWhile_SucD)
  from 1 2 show ?thesis by blast
qed

lemma date_group_shape:
  assumes "rx_match (Mark # date_rx @ [Mark]) q t = Some mr"
  shows "\<exists>y1 y2 y3 y4 m1 m2 d1 d2 r.
           t = [y1, y2, y3, y4, CHR ''-'', m1, m2, CHR ''-'', d1, d2] @ r
           \<and> js_digit y1 \<and> js_digit y2 \<and> js_digit y3 \<and> js_digit y4
           \<and> js_digit m1 \<and> js_digit m2 \<and> js_digit d1 \<and> js_digit d2
           \<and> mr = ([t, r], r)"
proof -
  from assms obtain mr1 where
    m1: "rx_match (exactly 4 js_digit # Lit ''-'' # exactly 2 js_digit # Lit ''-'' # exactly 2 js_digit # [Mark]) q t = Some mr1"
    and mr: "mr = (t # fst mr1, snd mr1)"
    by (auto simp: date_rx_def split: option.splits simp del: rx_match.simps(3))
  from m1 have y: "4 \<le> length (takeWhile js_digit t)"
    and m2: "rx_match (Lit ''-'' # exactly 2 js_digit # Lit ''-'' # exactly 2 js_digit # [Mark]) (prev_after 4 q t) (drop 4 t) = Some mr1"
    by (auto simp only: rx_match_exactly split: if_splits)
  from digits4D [OF y] obtain y1 y2 y3 y4 t4 where t: "t = y1 # y2 # y3 # y4 # t4"
    and yd: "js_digit y1" "js_digit y2" "js_digit y3" "js_digit y4" by blast
  from m2 t obtain t5 where t4: "t4 = CHR ''-'' # t5"
    and m3: "rx_match (exactly 2 js_digit # Lit ''-'' # exactly 2 js_digit # [Mark]) (Some CHR ''-'') t5 = Some mr1"
    by (cases t4) (auto simp: prev_after_def split: if_splits simp del: rx_match.simps(3))
  from m3 have mo: "2 \<le> length (takeWhile js_digit t5)"
    and m4: "rx_match (Lit ''-'' # exactly 2 js_digit # [Mark]) (prev_after 2 (Some CHR ''-'') t5) (drop 2 t5) = Some mr1"
    by (auto simp only: rx_match_exactly split: if_splits)
  from digits2D [OF mo] obtain m1 m2 t7 where t5: "t5 = m1 # m2 # t7" and md: "js_digit m1" "js_digit m2" by blast
  from m4 t5 obtain t8 where t7: "t7 = CHR ''-'' # t8"
    and m5: "rx_match (exactly 2 js_digit # [Mark]) (Some CHR ''-'') t8 = Some mr1"
    by (cases t7) (auto simp: prev_after_def split: if_splits simp del: rx_match.simps(3))
  from m5 have da: "2 \<le> length (takeWhile js_digit t8)"
    and m6: "rx_match [Mark] (prev_after 2 (Some CHR ''-'') t8) (drop 2 t8) = Some mr1"
    by (auto simp only: rx_match_exactly split: if_splits)
  from digits2D [OF da] obtain d1 d2 r where t8: "t8 = d1 # d2 # r" and dd: "js_digit d1" "js_digit d2" by blast
  from m6 t8 have "mr1 = ([r], r)" by auto
  with mr t t4 t5 t7 t8 yd md dd show ?thesis by simp
qed

lemma strict_date_accepts:
  assumes "js_digit y1" "js_digit y2" "js_digit y3" "js_digit y4"
    "js_digit m1" "js_digit m2" "js_digit d1" "js_digit d2"
  shows "test strict_date_rx [y1, y2, y3, y4, CHR ''-'', m1, m2, CHR ''-'', d1, d2]"
proof -
  have nd: "\<not> js_digit CHR ''-''" by (simp add: js_digit_def)
  have e4: "rx_match (exactly 4 js_digit # as) p (y1 # y2 # y3 # y4 # r)
      = rx_match as (Some y4) r" for as p r
    using assms by (simp add: rx_match_exactly prev_after_def del: rx_match.simps(3))
  have e2: "js_digit a \<Longrightarrow> js_digit b \<Longrightarrow> rx_match (exactly 2 js_digit # as) p (a # b # r)
      = rx_match as (Some b) r" for as p r a b
    by (simp add: rx_match_exactly prev_after_def del: rx_match.simps(3))
  show ?thesis
    using assms
    by (simp add: test_def exec_def strict_date_rx_def e4 e2 prev_after_def mk_result_def
        del: rx_match.simps(3))
qed

lemma check_date_never_reports: "check_date frontMatter field v = v"
proof (cases "exec (date_field_rx field) frontMatter")
  case None
  then show ?thesis by (simp add: check_date_def)
next
  case (Some m)
  then obtain k mr where
    mm: "rx_match (date_field_rx field) (prev_after k None frontMatter) (drop k frontMatter) = Some mr"
    and m: "m = mk_result (0 + k) (drop k frontMatter) mr"
    unfolding exec_def search_Some_iff by blast
  let ?p = "prev_after k None frontMatter" and ?s = "drop k frontMatter"
  from mm have "rx_match (Lit (field @ '':'') # star js_space # Mark # date_rx @ [Mark]) ?p ?s = Some mr"
    by (simp only: date_field_rx_def date_rx_def append.simps)
  then have "\<exists>q t. rx_match (star js_space # Mark # date_rx @ [Mark]) q t = Some mr"
    by (blast dest: rx_match_LitD)
  then obtain q t where "rx_match (Mark # date_rx @ [Mark]) q t = Some mr"
    by (blast dest: rx_match_RepD)
  from date_group_shape [OF this] obtain y1 y2 y3 y4 m1 m2 d1 d2 r where
    t: "t = [y1, y2, y3, y4, CHR ''-'', m1, m2, CHR ''-'', d1, d2] @ r"
    and d: "js_digit y1" "js_digit y2" "js_digit y3" "js_digit y4"
      "js_digit m1" "js_digit m2" "js_digit d1" "js_digit d2"
    and mr: "mr = ([t, r], r)" by blast
  from m mr t have "groups m ! 0 = [y1, y2, y3, y4, CHR ''-'', m1, m2, CHR ''-'', d1, d2]"
    by (simp add: mk_result_def)
  with strict_date_accepts [OF d] Some show ?thesis by (simp add: check_date_def Let_def)
qed

section \<open>The front-matter check\<close>

lemma includes_str_iff: "includes_str s t \<longleftrightarrow> (\<exists>u w. s = u @ t @ w)"
proof (induction s)
  case Nil
  show ?case by auto
next
  case (Cons c cs)
  show ?case
  proof (cases "prefix t (c # cs)")
    case True
    then obtain w where "c # cs = t @ w" by (auto simp: prefix_def)
    then have "c # cs = [] @ t @ w" by simp
    then have "\<exists>u w. c # cs = u @ t @ w" by blast
    with True show ?thesis by simp
  next
    case False
    have "(\<exists>u w. c # cs = u @ t @ w) \<longleftrightarrow> (\<exists>u w. cs = u @ t @ w)"
    proof
      assume "\<exists>u w. c # cs = u @ t @ w"
      then obtain u w where uw: "c # cs = u @ t @ w" by blast
      show "\<exists>u w. cs = u @ t @ w"
      proof (cases u)
        case Nil
        with uw have "prefix t (c # cs)" by (simp add: prefix_def)
        with False show ?thesis by simp
      next
        case (Cons a u')
        with uw have "cs = u' @ t @ w" by simp
        then show ?thesis by blast
      qed
    next
      assume "\<exists>u w. cs = u @ t @ w"
      then obtain u w where "cs = u @ t @ w" by blast
      then have "c # cs = (c # u) @ t @ w" by simp
      then show "\<exists>u w. c # cs = u @ t @ w" by blast
    qed
    with False Cons.IH show ?thesis by simp
  qed
qed

lemma fold_check_date: "fold (check_date frontMatter) fs v = v"
  by (induction fs arbitrary: v) (simp_all add: check_date_never_reports)

lemma fold_check_required:
  "errors (fold (check_required frontMatter) fs v) =
     errors v @ map (\<lambda>f. ''Missing required field: '' @ f)
       (filter (\<lambda>f. \<not> includes_str frontMatter (f @ '':'')) fs)"
  by (induction fs arbitrary: v) (simp_all add: check_required_def push_error_def)

lemma validateFrontMatter_errors:
  assumes "exec front_matter_rx content = Some m"
  shows "errors (snd (validateFrontMatter content v)) =
     errors v @ map (\<lambda>f. ''Missing required field: '' @ f)
       (filter (\<lambda>f. \<not> includes_str (groups m ! 0) (f @ '':'')) requiredFields)"
  using assms by (simp add: validateFrontMatter_def Let_def fold_check_date fold_check_required)

lemma validateFrontMatter_no_block:
  assumes "exec front_matter_rx content = None"
  shows "errors (snd (validateFrontMatter content v)) = errors v @ [''Missing or malformed front matter'']"
  using assms by (simp add: validateFrontMatter_def push_error_def)

lemma fold_check_required_present:
  "list_all (\<lambda>f. includes_str frontMatter (f @ '':'')) fs \<Longrightarrow>
     fold (check_required frontMatter) fs v = v"
  by (induction fs arbitrary: v) (simp_all add: check_required_def)

text \<open>
  Claim C10. \<open>validateFrontMatter\<close> reports a required field as missing exactly when
  the name of the field followed by a colon occurs nowhere in the text of the front
  matter, whether or not a line of the front matter is that field: in the sample
  document no line starts with \<open>title:\<close>, the key \<open>subtitle:\<close> contains it, and no
  error is reported for \<open>title\<close>.
\<close>

theorem required_field_by_substring:
  assumes "exec front_matter_rx content = Some m"
  shows "''Missing required field: '' @ f \<in> set (errors (snd (validateFrontMatter content no_errors)))
           \<longleftrightarrow> f \<in> set requiredFields \<and> \<not> (\<exists>u w. groups m ! 0 = u @ (f @ '':'') @ w)"
  by (auto simp: validateFrontMatter_errors [OF assms] no_errors_def includes_str_iff)

theorem required_field_by_substring_witness:
  "map_option (\<lambda>m. groups m ! 0) (exec front_matter_rx subtitle_doc) = Some subtitle_fm
   \<and> filter (prefix ''title:'') (lines_of subtitle_fm) = []
   \<and> ''title'' \<in> set requiredFields
   \<and> ''Missing required field: title''
        \<notin> set (errors (snd (validateFrontMatter subtitle_doc no_errors)))"
proof -
  have ex: "exec front_matter_rx subtitle_doc =
      Some \<lparr>index = 0, matched = ''---\<newline>'' @ subtitle_fm @ ''\<newline>---\<newline>'',
            groups = [subtitle_fm], rest = ''Body''\<rparr>"
    by (simp add: subtitle_doc_def subtitle_fm_def exec_def front_matter_rx_def any_char_def
        counts_def Let_def prev_after_def mk_result_def)
  have sub: "subtitle_fm = ''sub'' @ (''title'' @ '':'') @ drop 9 subtitle_fm"
    by (simp add: subtitle_fm_def)
  have "\<exists>u w. subtitle_fm = u @ (''title'' @ '':'') @ w"
    by (rule exI [of _ "''sub''"], rule exI [of _ "drop 9 subtitle_fm"]) (rule sub)
  with required_field_by_substring [OF ex, of "''title''"]
  have "''Missing required field: '' @ ''title''
      \<notin> set (errors (snd (validateFrontMatter subtitle_doc no_errors)))"
    by simp
  moreover have "filter (prefix ''title:'') (lines_of subtitle_fm) = []"
    by (simp add: subtitle_fm_def)
  moreover have "''title'' \<in> set requiredFields" by (simp add: requiredFields_def)
  ultimately show ?thesis using ex by simp
qed

text \<open>
  Claim C7. A front matter whose \<open>date\<close> is \<open>05/01/2024\<close> and whose \<open>lastmod\<close> is
  \<open>yesterday\<close> passes \<open>validateFrontMatter\<close> with no error: the pattern that extracts
  the value only matches a value of the form YYYY-MM-DD, so the test of the extracted
  value never fails (\<open>check_date_never_reports\<close>).
\<close>

theorem bad_dates_pass:
  "validateFrontMatter bad_dates_doc no_errors = (True, no_errors)"
proof -
  have ex: "exec front_matter_rx bad_dates_doc =
      Some \<lparr>index = 0, matched = ''---\<newline>'' @ bad_dates_fm @ ''\<newline>---\<newline>'',
            groups = [bad_dates_fm], rest = ''Body''\<rparr>"
    by (simp add: bad_dates_doc_def bad_dates_fm_def exec_def front_matter_rx_def any_char_def
        counts_def Let_def prev_after_def mk_result_def)
  have inc: "list_all (\<lambda>f. includes_str bad_dates_fm (f @ '':'')) requiredFields"
    by (simp add: requiredFields_def bad_dates_fm_def)
  show ?thesis
    by (simp add: validateFrontMatter_def ex Let_def fold_check_date
        fold_check_required_present [OF inc] no_errors_def)
qed

section \<open>Counting matches\<close>

lemma matchAll_search_cong:
  "search rx p s i = search rx p' s' i' \<Longrightarrow> matchAll rx p s i = matchAll rx p' s' i'"
  using matchAll.simps [of rx p s i] matchAll.simps [of rx p' s' i'] by simp

lemma matchAll_miss:
  "rx_match rx p (c # cs) = None \<Longrightarrow> matchAll rx p (c # cs) i = matchAll rx (Some c) cs (Suc i)"
  by (rule matchAll_search_cong) simp

lemma matchAll_Nil_miss: "rx_match rx p [] = None \<Longrightarrow> matchAll rx p [] i = []"
  by (subst matchAll.simps) simp

lemma matchAll_char:
  "matchAll [Lit [a]] p (c # cs) i =
     (if c = a then \<lparr>index = i, matched = [a], groups = [], rest = cs\<rparr> # matchAll [Lit [a]] (Some a) cs (Suc i)
      else matchAll [Lit [a]] (Some c) cs (Suc i))"
proof (cases "c = a")
  case True
  then show ?thesis
    by (subst matchAll.simps) (simp add: mk_result_def)
next
  case False
  then show ?thesis by (simp add: matchAll_miss)
qed

lemma length_matchAll_char: "length (matchAll [Lit [a]] p s i) = count_list s a"
proof (induction s arbitrary: p i)
  case Nil
  show ?case by (simp add: matchAll_Nil_miss)
next
  case (Cons c cs)
  then show ?case by (simp add: matchAll_char)
qed

lemma length_match_g_char: "length (match_g [Lit [a]] s) = count_list s a"
  by (simp add: match_g_def match_all_def length_matchAll_char)

section \<open>Errors are only added\<close>

lemma errors_push_warning: "errors (push_warning w v) = errors v"
  by (simp add: push_warning_def)

lemma fold_errors_same:
  assumes "\<And>x v. errors (f x v) = errors v"
  shows "errors (fold f xs v) = errors v"
  by (induction xs arbitrary: v) (simp_all add: assms)

lemma fold_check_gist:
  "errors (fold (check_gist og ng) is v) =
     errors v @ map (\<lambda>i. gist_modified i (og ! i) (ng ! i)) (filter (\<lambda>i. og ! i \<noteq> ng ! i) is)"
  by (induction "is" arbitrary: v) (simp_all add: check_gist_def push_error_def)

lemma validateGistPreservation_errors:
  "errors (snd (validateGistPreservation original new v)) =
     errors v @
     (if length (match_g gist_rx original) \<noteq> length (match_g gist_rx new)
      then [''Gist count mismatch: original '' @ show_nat (length (match_g gist_rx original))
             @ '', new '' @ show_nat (length (match_g gist_rx new))]
      else map (\<lambda>i. gist_modified i (match_g gist_rx original ! i) (match_g gist_rx new ! i))
             (filter (\<lambda>i. match_g gist_rx original ! i \<noteq> match_g gist_rx new ! i)
                [0 ..< length (match_g gist_rx original)]))"
  by (simp add: validateGistPreservation_def Let_def push_error_def fold_check_gist)

lemma validateHeadingsPreservation_errors:
  "errors (snd (validateHeadingsPreservation original new v)) = errors v"
proof -
  have "errors (check_heading a b i v) = errors v" for a b i v
    by (simp add: check_heading_def errors_push_warning)
  then show ?thesis
    by (simp add: validateHeadingsPreservation_def Let_def fold_errors_same errors_push_warning)
qed

lemma validateLinksPreservation_prefix:
  "prefix (errors v) (errors (snd (validateLinksPreservation original new v)))"
  by (simp add: validateLinksPreservation_def Let_def errors_push_warning push_error_def)

lemma validateContentLength_errors:
  "errors (snd (validateContentLength original new v)) = errors v"
  by (simp add: validateContentLength_def Let_def errors_push_warning)

lemma validate_content_valid: "valid (validate_content content orig) \<longleftrightarrow> v_errors (validate_content content orig) = []"
  by (simp add: validate_content_def Let_def)

lemma structure_errors_kept:
  "prefix (errors (structure_stage content)) (v_errors (validate_content content orig))"
proof (cases "orig = None \<or> orig = Some []")
  case True
  then show ?thesis
    by (auto simp: validate_content_def Let_def structure_stage_def no_errors_def)
next
  case False
  then obtain original where o: "orig = Some original" "original \<noteq> []" by auto
  let ?v2 = "structure_stage content"
  let ?v3 = "snd (validateGistPreservation original content ?v2)"
  let ?v4 = "snd (validateHeadingsPreservation original content ?v3)"
  let ?v5 = "snd (validateLinksPreservation original content ?v4)"
  have "prefix (errors ?v2) (errors ?v3)" by (simp add: validateGistPreservation_errors)
  also have "prefix (errors ?v3) (errors ?v5)"
    using validateLinksPreservation_prefix [of ?v4 original content]
    by (simp add: validateHeadingsPreservation_errors)
  finally have "prefix (errors ?v2) (errors ?v5)" .
  then show ?thesis using o
    by (simp add: validate_content_def Let_def structure_stage_def no_errors_def
        validateContentLength_errors)
qed

lemma gist_errors_kept:
  assumes "original \<noteq> []"
  shows "prefix (errors (gist_stage original content)) (v_errors (validate_content content (Some original)))"
proof -
  let ?v3 = "gist_stage original content"
  let ?v4 = "snd (validateHeadingsPreservation original content ?v3)"
  let ?v5 = "snd (validateLinksPreservation original content ?v4)"
  have "prefix (errors ?v3) (errors ?v5)"
    using validateLinksPreservation_prefix [of ?v4 original content]
    by (simp add: validateHeadingsPreservation_errors)
  then show ?thesis using assms
    by (simp add: validate_content_def Let_def gist_stage_def structure_stage_def no_errors_def
        validateContentLength_errors)
qed

lemma prefix_mem: "prefix xs ys \<Longrightarrow> x \<in> set xs \<Longrightarrow> x \<in> set ys"
  using set_mono_prefix by blast

lemma validateFile_read:
  "fs filePath = Some content \<Longrightarrow> validateFile fs filePath orig = validate_content content orig"
  by (simp add: validateFile_def readFileSync_def)

section \<open>The checks of \<open>validateFile\<close>\<close>

text \<open>
  Claim C6, as the code has it. The count of \<open>[\<close> differing from the count of \<open>]\<close> is
  an issue that \<open>validateMarkdownStructure\<close> pushes onto \<open>errors\<close>: \<open>validateFile\<close>
  reports the message among its errors and \<open>valid = false\<close>. An odd number of
  code-fence markers does the same.
\<close>

theorem unmatched_structure_is_fatal:
  assumes "fs filePath = Some content"
  shows "(count_list content CHR ''['' \<noteq> count_list content CHR '']'' \<longrightarrow>
            \<not> valid (validateFile fs filePath orig) \<and>
            ''Unmatched square brackets: '' @ show_nat (count_list content CHR ''['') @ '' open, ''
               @ show_nat (count_list content CHR '']'') @ '' close''
              \<in> set (v_errors (validateFile fs filePath orig)))
       \<and> (odd (length (match_g [Lit ''```''] content)) \<longrightarrow>
            \<not> valid (validateFile fs filePath orig) \<and>
            ''Unmatched code block markers (```)'' \<in> set (v_errors (validateFile fs filePath orig)))"
proof -
  let ?r = "validateFile fs filePath orig"
  have r: "?r = validate_content content orig" using assms by (simp add: validateFile_read)
  have kept: "e \<in> set (v_errors ?r)" if "e \<in> set (errors (structure_stage content))" for e
    using structure_errors_kept [of content orig] that unfolding r by (rule prefix_mem)
  have invalid: "\<not> valid ?r" if "e \<in> set (v_errors ?r)" for e
    using that unfolding r validate_content_valid by auto
  have brackets: "''Unmatched square brackets: '' @ show_nat (count_list content CHR ''['') @ '' open, ''
               @ show_nat (count_list content CHR '']'') @ '' close''
      \<in> set (errors (structure_stage content))"
    if "count_list content CHR ''['' \<noteq> count_list content CHR '']''"
    using that
    by (simp add: structure_stage_def validateMarkdownStructure_def Let_def length_match_g_char
        errors_push_warning)
  have fences: "''Unmatched code block markers (```)'' \<in> set (errors (structure_stage content))"
    if "odd (length (match_g [Lit ''```''] content))"
  proof -
    from that have "match_g [Lit ''```''] content \<noteq> []" by auto
    moreover from that have "length (match_g [Lit ''```''] content) mod 2 \<noteq> 0"
      by (simp add: odd_iff_mod_2_eq_one)
    ultimately show ?thesis
      by (simp add: structure_stage_def validateMarkdownStructure_def Let_def errors_push_warning)
  qed
  show ?thesis using kept [OF brackets] kept [OF fences] invalid by blast
qed

theorem unmatched_structure_is_fatal_witness:
  "count_list (sample_doc @ ''['') CHR ''['' \<noteq> count_list (sample_doc @ ''['') CHR '']''
   \<and> \<not> valid (validateFile [''a.md'' \<mapsto> sample_doc @ ''[''] ''a.md'' None)
   \<and> ''Unmatched square brackets: 1 open, 0 close''
        \<in> set (v_errors (validateFile [''a.md'' \<mapsto> sample_doc @ ''[''] ''a.md'' None))
   \<and> odd (length (match_g [Lit ''```''] (sample_doc @ ''```'')))
   \<and> \<not> valid (validateFile [''a.md'' \<mapsto> sample_doc @ ''```''] ''a.md'' None)
   \<and> ''Unmatched code block markers (```)''
        \<in> set (v_errors (validateFile [''a.md'' \<mapsto> sample_doc @ ''```''] ''a.md'' None))"
proof -
  let ?A = "sample_doc @ ''[''" and ?B = "sample_doc @ ''```''"
  have c1: "count_list ?A CHR ''['' = 1" by code_simp
  have c2: "count_list ?A CHR '']'' = 0" by code_simp
  have msg: "''Unmatched square brackets: '' @ show_nat 1 @ '' open, '' @ show_nat 0 @ '' close''
      = ''Unmatched square brackets: 1 open, 0 close''" by code_simp
  have ne: "count_list ?A CHR ''['' \<noteq> count_list ?A CHR '']''" unfolding c1 c2 by simp
  have f: "odd (length (match_g [Lit ''```''] ?B))" by code_simp
  have a: "[''a.md'' \<mapsto> ?A] ''a.md'' = Some ?A" by simp
  have b: "[''a.md'' \<mapsto> ?B] ''a.md'' = Some ?B" by simp
  have "\<not> valid (validateFile [''a.md'' \<mapsto> ?A] ''a.md'' None) \<and>
        ''Unmatched square brackets: '' @ show_nat (count_list ?A CHR ''['') @ '' open, ''
          @ show_nat (count_list ?A CHR '']'') @ '' close''
        \<in> set (v_errors (validateFile [''a.md'' \<mapsto> ?A] ''a.md'' None))"
    using unmatched_structure_is_fatal [of "[''a.md'' \<mapsto> ?A]" "''a.md''" ?A None] a ne by blast
  then have 1: "\<not> valid (validateFile [''a.md'' \<mapsto> ?A] ''a.md'' None) \<and>
        ''Unmatched square brackets: 1 open, 0 close''
        \<in> set (v_errors (validateFile [''a.md'' \<mapsto> ?A] ''a.md'' None))"
    unfolding c1 c2 msg .
  have 2: "\<not> valid (validateFile [''a.md'' \<mapsto> ?B] ''a.md'' None) \<and>
        ''Unmatched code block markers (```)''
        \<in> set (v_errors (validateFile [''a.md'' \<mapsto> ?B] ''a.md'' None))"
    using unmatched_structure_is_fatal [of "[''a.md'' \<mapsto> ?B]" "''a.md''" ?B None] b f by blast
  from ne 1 f 2 show ?thesis by blast
qed

text \<open>
  Claim C6 as stated fails: a document that validates stops validating when one \<open>[\<close> is
  appended, with one error and no warning.
\<close>

theorem bracket_mismatch_counterexample:
  "valid (validateFile [''a.md'' \<mapsto> sample_doc] ''a.md'' None)
   \<and> validateFile [''a.md'' \<mapsto> sample_doc @ ''[''] ''a.md'' None =
       \<lparr>valid = False, v_errors = [''Unmatched square brackets: 1 open, 0 close''],
        v_warnings = []\<rparr>"
  by code_simp

text \<open>
  Claim C1. The original is a document, so it is not the empty string (which the guard
  \<open>if (originalContent)\<close> takes for no original at all, see
  \<open>empty_original_is_no_original\<close>). When \<open>validateFile\<close> reports \<open>valid = true\<close> for
  a candidate, the gist shortcodes of the candidate are those of the original, in order;
  a different count, or a different text at some position, puts its message among the
  errors and makes the result invalid.
\<close>

theorem gist_sequence_preserved:
  assumes "fs filePath = Some candidate" and "originalContent \<noteq> []"
  shows "(valid (validateFile fs filePath (Some originalContent)) \<longrightarrow>
            match_g gist_rx candidate = match_g gist_rx originalContent)
       \<and> (length (match_g gist_rx originalContent) \<noteq> length (match_g gist_rx candidate) \<longrightarrow>
            \<not> valid (validateFile fs filePath (Some originalContent)) \<and>
            ''Gist count mismatch: original '' @ show_nat (length (match_g gist_rx originalContent))
               @ '', new '' @ show_nat (length (match_g gist_rx candidate))
              \<in> set (v_errors (validateFile fs filePath (Some originalContent))))
       \<and> (\<forall>i < length (match_g gist_rx originalContent).
            length (match_g gist_rx originalContent) = length (match_g gist_rx candidate) \<and>
            match_g gist_rx originalContent ! i \<noteq> match_g gist_rx candidate ! i \<longrightarrow>
            \<not> valid (validateFile fs filePath (Some originalContent)) \<and>
            gist_modified i (match_g gist_rx originalContent ! i) (match_g gist_rx candidate ! i)
              \<in> set (v_errors (validateFile fs filePath (Some originalContent))))"
proof -
  let ?r = "validateFile fs filePath (Some originalContent)"
  let ?og = "match_g gist_rx originalContent" and ?ng = "match_g gist_rx candidate"
  let ?g = "errors (gist_stage originalContent candidate)"
  have r: "?r = validate_content candidate (Some originalContent)"
    using assms(1) by (simp add: validateFile_read)
  have pre: "prefix ?g (v_errors ?r)"
    unfolding r by (rule gist_errors_kept [OF assms(2)])
  have kept: "e \<in> set (v_errors ?r)" if "e \<in> set ?g" for e
    using pre that by (rule prefix_mem)
  have invalid: "\<not> valid ?r" if "e \<in> set (v_errors ?r)" for e
    using that unfolding r validate_content_valid by auto
  have count: "''Gist count mismatch: original '' @ show_nat (length ?og) @ '', new ''
      @ show_nat (length ?ng) \<in> set ?g" if "length ?og \<noteq> length ?ng"
    using that by (simp add: gist_stage_def validateGistPreservation_errors)
  have changed: "gist_modified i (?og ! i) (?ng ! i) \<in> set ?g"
    if "i < length ?og" "length ?og = length ?ng" "?og ! i \<noteq> ?ng ! i" for i
    using that by (simp add: gist_stage_def validateGistPreservation_errors)
  have same: "?ng = ?og" if v: "valid ?r"
  proof -
    from v have "v_errors ?r = []" unfolding r validate_content_valid .
    with pre have none: "?g = []" by simp
    have len: "length ?og = length ?ng"
    proof (rule ccontr)
      assume "length ?og \<noteq> length ?ng"
      from count [OF this] none show False by simp
    qed
    have "?og ! i = ?ng ! i" if "i < length ?og" for i
    proof (rule ccontr)
      assume "?og ! i \<noteq> ?ng ! i"
      from changed [OF that len this] none show False by simp
    qed
    with len show ?thesis by (simp add: nth_equalityI)
  qed
  show ?thesis using same kept [OF count] kept [OF changed] invalid by blast
qed

theorem gist_sequence_preserved_witness:
  "valid (validateFile [''a.md'' \<mapsto> sample_doc] ''a.md'' (Some sample_doc))
   \<and> match_g gist_rx sample_doc = [''{{< gist a >}}'']
   \<and> match_g gist_rx (sample_doc @ ''{{< gist a >}}'') = [''{{< gist a >}}'', ''{{< gist a >}}'']
   \<and> \<not> valid (validateFile [''a.md'' \<mapsto> sample_doc @ ''{{< gist a >}}''] ''a.md'' (Some sample_doc))
   \<and> ''Gist count mismatch: original 1, new 2''
        \<in> set (v_errors (validateFile [''a.md'' \<mapsto> sample_doc @ ''{{< gist a >}}''] ''a.md''
                    (Some sample_doc)))"
proof -
  let ?B = "sample_doc @ ''{{< gist a >}}''"
  have v: "valid (validateFile [''a.md'' \<mapsto> sample_doc] ''a.md'' (Some sample_doc))" by code_simp
  have g1: "match_g gist_rx sample_doc = [''{{< gist a >}}'']" by code_simp
  have g2: "match_g gist_rx ?B = [''{{< gist a >}}'', ''{{< gist a >}}'']" by code_simp
  have l1: "length (match_g gist_rx sample_doc) = 1" and l2: "length (match_g gist_rx ?B) = 2"
    by (simp_all add: g1 g2)
  have msg: "''Gist count mismatch: original '' @ show_nat 1 @ '', new '' @ show_nat 2
      = ''Gist count mismatch: original 1, new 2''" by code_simp
  have ne: "sample_doc \<noteq> []" by (simp add: sample_doc_def)
  have d: "length (match_g gist_rx sample_doc) \<noteq> length (match_g gist_rx ?B)"
    unfolding l1 l2 by simp
  have b: "[''a.md'' \<mapsto> ?B] ''a.md'' = Some ?B" by simp
  have "\<not> valid (validateFile [''a.md'' \<mapsto> ?B] ''a.md'' (Some sample_doc)) \<and>
        ''Gist count mismatch: original '' @ show_nat (length (match_g gist_rx sample_doc))
          @ '', new '' @ show_nat (length (match_g gist_rx ?B))
        \<in> set (v_errors (validateFile [''a.md'' \<mapsto> ?B] ''a.md'' (Some sample_doc)))"
    using gist_sequence_preserved [of "[''a.md'' \<mapsto> ?B]" "''a.md''" ?B sample_doc] b ne d
    by blast
  then have "\<not> valid (validateFile [''a.md'' \<mapsto> ?B] ''a.md'' (Some sample_doc)) \<and>
        ''Gist count mismatch: original 1, new 2''
        \<in> set (v_errors (validateFile [''a.md'' \<mapsto> ?B] ''a.md'' (Some sample_doc)))"
    unfolding l1 l2 msg .
  with v g1 g2 show ?thesis by blast
qed

lemma empty_original_is_no_original:
  "validateFile fs filePath (Some []) = validateFile fs filePath None"
  by (simp add: validateFile_def validate_content_def split: sum.splits)

section \<open>\<open>processArticle\<close>\<close>

lemma rewriteParagraph_disk:
  "rewriteParagraph e req w = (w', res) \<Longrightarrow> disk w' = disk w \<and> processedFiles w' = processedFiles w"
  by (auto simp: rewriteParagraph_def Let_def split: prod.splits)

lemma delay_disk: "disk (delay ms w) = disk w \<and> processedFiles (delay ms w) = processedFiles w"
  by (simp add: delay_def)

lemma rewrite_opening_disk:
  "rewrite_opening e title platform opening newContent w = (w', res) \<Longrightarrow>
     disk w' = disk w \<and> processedFiles w' = processedFiles w"
  by (auto simp: rewrite_opening_def delay_disk split: if_splits prod.splits sum.splits
      dest: rewriteParagraph_disk)

lemma rewrite_closing_disk:
  "rewrite_closing e title platform ps newContent w = (w', res) \<Longrightarrow>
     disk w' = disk w \<and> processedFiles w' = processedFiles w"
proof (induction ps arbitrary: newContent w)
  case Nil
  then show ?case by simp
next
  case (Cons p ps)
  obtain w1 r1 where rp: "rewriteParagraph e (Closing, p, title, platform) w = (w1, r1)"
    by (cases "rewriteParagraph e (Closing, p, title, platform) w")
  note d1 = rewriteParagraph_disk [OF rp]
  show ?case
  proof (cases r1)
    case (Inl m)
    with Cons.prems rp d1 show ?thesis by auto
  next
    case (Inr v)
    show ?thesis
    proof (cases "trim_of ''rewrittenClosing'' v")
      case (Inl m)
      with Cons.prems rp Inr d1 show ?thesis by auto
    next
      case (Inr trimmed)
      with Cons.prems rp \<open>r1 = Inr v\<close>
      have "rewrite_closing e title platform ps (replace_str newContent p trimmed)
              (if ps \<noteq> [] then delay 2000 w1 else w1) = (w', res)" by simp
      from Cons.IH [OF this] d1 show ?thesis by (auto simp: delay_disk split: if_splits)
    qed
  qed
qed

lemma prepare_disk:
  assumes "prepare e absolutePath w = (w2, res)"
  shows "disk w2 = disk w \<and> processedFiles w2 = processedFiles w"
  using assms
  by (auto simp: prepare_def Let_def
      split: sum.splits prod.splits option.splits if_splits
      dest!: rewrite_opening_disk rewrite_closing_disk)

lemma prepare_original:
  assumes "prepare e absolutePath w = (w2, Inr (Some d))"
  shows "disk w absolutePath = Some (d_original d)"
  using assms
  by (auto simp: prepare_def Let_def readFileSync_def
      split: sum.splits prod.splits option.splits if_splits)

lemma backup_path_differs: "backup_path e absolutePath \<noteq> absolutePath"
  by (simp add: backup_path_def)

lemma commit_rollback:
  assumes orig: "fs absolutePath = Some originalContent"
      and bad: "\<not> valid (validate_content newFileContent (Some originalContent))"
  shows "commit e absolutePath originalContent newFileContent fs =
           ((fs(absolutePath \<mapsto> originalContent))(backup_path e absolutePath := None),
            Inl (''Validation failed: ''
              @ join '', '' (v_errors (validate_content newFileContent (Some originalContent)))))"
proof -
  let ?b = "backup_path e absolutePath"
  have ne: "?b \<noteq> absolutePath" by (rule backup_path_differs)
  have cb: "createBackup (date_now e) fs absolutePath = Inr (?b, fs(?b \<mapsto> originalContent))"
    using orig by (simp add: createBackup_def copyFileSync_def backup_path_def Let_def)
  let ?fs1 = "writeFileSync (fs(?b \<mapsto> originalContent)) absolutePath newFileContent"
  have v: "validateFile ?fs1 absolutePath (Some originalContent)
      = validate_content newFileContent (Some originalContent)"
    by (simp add: validateFile_def readFileSync_def writeFileSync_def)
  have rs: "restoreFromBackup ?fs1 absolutePath ?b =
      Inr ((fs(absolutePath \<mapsto> originalContent))(?b := None))"
    using ne by (auto simp: restoreFromBackup_def copyFileSync_def unlinkSync_def writeFileSync_def)
  have ex: "\<not> existsSync ((fs(absolutePath \<mapsto> originalContent))(?b := None)) ?b"
    by (simp add: existsSync_def)
  show ?thesis
    unfolding commit_def cb by (simp add: Let_def v bad rs ex)
qed

text \<open>
  Claim C2. Let the outer \<open>try\<close> block of \<open>processArticle\<close> reach the candidate
  \<open>newFileContent\<close>, and let the validation of the candidate against the original (what
  \<open>validateFile\<close> computes from the content it reads back) report \<open>valid = false\<close>. Then
  \<open>processArticle\<close> returns a result of status error that carries the joined messages;
  the file holds the original content, as before the call; no file remains at the backup
  path, and every other path is as it was. \<open>demo_backup_path\<close> and \<open>demo_errors\<close> are
  the backup path and the errors of the sample run.
\<close>

theorem rollback_on_validation_failure:
  assumes "prepare e (absolute e filePath) w = (w2, Inr (Some d))"
      and "\<not> valid (validate_content (d_newFile d) (Some (d_original d)))"
  shows "\<exists>w' r. processArticle e filePath w = (w', Some r)
           \<and> disk w (absolute e filePath) = Some (d_original d)
           \<and> disk w' (absolute e filePath) = disk w (absolute e filePath)
           \<and> disk w' (backup_path e (absolute e filePath)) = None
           \<and> (\<forall>p. p \<noteq> backup_path e (absolute e filePath) \<longrightarrow> disk w' p = disk w p)
           \<and> r_status r = Error
           \<and> r_error r = Some (''Validation failed: ''
                @ join '', '' (v_errors (validate_content (d_newFile d) (Some (d_original d)))))
           \<and> processedFiles w' = processedFiles w @ [r]"
proof -
  let ?a = "absolute e filePath"
  let ?m = "''Validation failed: ''
       @ join '', '' (v_errors (validate_content (d_newFile d) (Some (d_original d))))"
  let ?fs = "((disk w)(?a \<mapsto> d_original d))(backup_path e ?a := None)"
  let ?r = "\<lparr>r_filePath = ?a, r_fileName = basename e filePath,
             r_title = None, r_platform = None, r_changes = None,
             r_error = Some ?m, r_status = Error\<rparr>"
  let ?w' = "w2\<lparr>disk := ?fs, processedFiles := processedFiles w2 @ [?r]\<rparr>"
  from prepare_disk [OF assms(1)] have same: "disk w2 = disk w" "processedFiles w2 = processedFiles w"
    by simp_all
  from prepare_original [OF assms(1)] have orig: "disk w ?a = Some (d_original d)" .
  have c: "commit e ?a (d_original d) (d_newFile d) (disk w2) = (?fs, Inl ?m)"
    using commit_rollback [of "disk w" ?a "d_original d" "d_newFile d" e] orig assms(2)
    by (simp add: same)
  have pt: "process_try e ?a w = (w2\<lparr>disk := ?fs\<rparr>, Inl ?m)"
    by (simp add: process_try_def assms(1) c)
  have pa: "processArticle e filePath w = (?w', Some ?r)"
    by (simp add: processArticle_def Let_def pt)
  have "disk ?w' ?a = disk w ?a" using orig backup_path_differs [of e ?a] by simp
  moreover have "disk ?w' (backup_path e ?a) = None" by simp
  moreover have "\<forall>p. p \<noteq> backup_path e ?a \<longrightarrow> disk ?w' p = disk w p" using orig by auto
  moreover have "processedFiles ?w' = processedFiles w @ [?r]" by (simp add: same)
  ultimately show ?thesis using pa orig by (intro exI [of _ ?w'] exI [of _ ?r]) simp
qed

lemma demo_rewrite:
  "rewriteParagraph demo_env req w =
     (w\<lparr>fetches := fetches w + 1, trace := trace w @ [Fetch 1]\<rparr>, Inr (Str demo_reply))"
  by (simp add: rewriteParagraph_def callLLM_def callLLM_from.simps demo_env_def is_fetch_def
      demo_reply_def)

lemma demo_prepare:
  "snd (prepare demo_env ''/repo/a.md'' (demo_world sample_doc)) = Inr (Some demo_draft)"
proof -
  have rd: "readFileSync (disk (demo_world sample_doc)) ''/repo/a.md'' = Inr sample_doc"
    by (simp add: readFileSync_def demo_world_def)
  have p1: "parseFrontMatter sample_doc = Inr (sample_fm, sample_body)" by code_simp
  obtain tm where tm: "exec title_rx sample_fm = Some tm" and tg: "groups tm ! 0 = ''T''"
  proof -
    have "exec title_rx sample_fm \<noteq> None" by code_simp
    moreover have "groups (the (exec title_rx sample_fm)) ! 0 = ''T''" by code_simp
    ultimately show ?thesis using that by auto
  qed
  obtain pm where pm: "exec platform_rx sample_fm = Some pm" and pg: "groups pm ! 0 = ''java''"
  proof -
    have "exec platform_rx sample_fm \<noteq> None" by code_simp
    moreover have "groups (the (exec platform_rx sample_fm)) ! 0 = ''java''" by code_simp
    ultimately show ?thesis using that by auto
  qed
  have p3: "extractOpeningParagraph sample_body = ''Intro text.''" by code_simp
  have p4: "extractClosingParagraphs sample_body = [''Closing one.'', ''Closing two.'']" by code_simp
  have s2: "show_nat (Suc (Suc 0)) = ''2''" by code_simp
  have td: "date_today demo_env = ''2026-11-02''" by (simp add: demo_env_def)
  show ?thesis
    by (simp add: prepare_def rd p1 tm pm tg pg p3 p4 Let_def rewrite_opening_def demo_rewrite
        trim_of_def s2 td demo_draft_def)
qed

lemma demo_errors:
  "v_errors (validate_content (d_newFile demo_draft) (Some (d_original demo_draft)))
     = [''Gist count mismatch: original 1, new 4'']"
  by code_simp

lemma demo_backup_path:
  "backup_path demo_env ''/repo/a.md'' = ''/repo/a.md.backup.1700000000000''"
  by (simp add: backup_path_def demo_env_def show_nat.simps digit_char_def)

theorem rollback_on_validation_failure_witness:
  "\<exists>w' r. processArticle demo_env ''a.md'' (demo_world sample_doc) = (w', Some r)
      \<and> disk w' ''/repo/a.md'' = Some sample_doc
      \<and> disk w' ''/repo/a.md.backup.1700000000000'' = None
      \<and> r_status r = Error
      \<and> r_error r = Some ''Validation failed: Gist count mismatch: original 1, new 4''
      \<and> processedFiles w' = [r]"
proof -
  let ?w = "demo_world sample_doc"
  have a: "absolute demo_env ''a.md'' = ''/repo/a.md''" by (simp add: demo_env_def)
  have p: "prepare demo_env (absolute demo_env ''a.md'') ?w
      = (fst (prepare demo_env ''/repo/a.md'' ?w), Inr (Some demo_draft))"
    unfolding a using demo_prepare by (simp add: prod_eq_iff)
  have bad: "\<not> valid (validate_content (d_newFile demo_draft) (Some (d_original demo_draft)))"
    unfolding validate_content_valid demo_errors by simp
  have m: "''Validation failed: ''
      @ join '', '' (v_errors (validate_content (d_newFile demo_draft) (Some (d_original demo_draft))))
      = ''Validation failed: Gist count mismatch: original 1, new 4''"
    unfolding demo_errors by simp
  have o: "d_original demo_draft = sample_doc" by (simp add: demo_draft_def)
  have d: "disk ?w ''/repo/a.md'' = Some sample_doc" and f: "processedFiles ?w = []"
    by (simp_all add: demo_world_def)
  from rollback_on_validation_failure [OF p bad]
  obtain w' r where "processArticle demo_env ''a.md'' ?w = (w', Some r)"
    "disk w' (absolute demo_env ''a.md'') = disk ?w (absolute demo_env ''a.md'')"
    "disk w' (backup_path demo_env (absolute demo_env ''a.md'')) = None"
    "r_status r = Error"
    "r_error r = Some (''Validation failed: ''
      @ join '', '' (v_errors (validate_content (d_newFile demo_draft) (Some (d_original demo_draft)))))"
    "processedFiles w' = processedFiles ?w @ [r]"
    by blast
  then have "processArticle demo_env ''a.md'' ?w = (w', Some r)
      \<and> disk w' ''/repo/a.md'' = Some sample_doc
      \<and> disk w' ''/repo/a.md.backup.1700000000000'' = None
      \<and> r_status r = Error
      \<and> r_error r = Some ''Validation failed: Gist count mismatch: original 1, new 4''
      \<and> processedFiles w' = [r]"
    unfolding a demo_backup_path m d f by simp
  then show ?thesis by blast
qed

lemma processArticle_skips:
  assumes "disk w (absolute e filePath) = Some originalContent"
      and "parseFrontMatter originalContent = Inr (frontMatter, content)"
      and "exec title_rx frontMatter \<noteq> None" and "exec platform_rx frontMatter \<noteq> None"
      and "extractOpeningParagraph content = []" and "extractClosingParagraphs content = []"
  shows "processArticle e filePath w = (w, None)"
proof -
  from assms have "prepare e (absolute e filePath) w = (w, Inr None)"
    by (auto simp: prepare_def readFileSync_def Let_def)
  then show ?thesis
    by (simp add: processArticle_def process_try_def Let_def)
qed

lemma headings_only_skipped:
  "processArticle demo_env ''a.md'' (demo_world headings_only_doc)
     = (demo_world headings_only_doc, None)"
proof (rule processArticle_skips)
  show "disk (demo_world headings_only_doc) (absolute demo_env ''a.md'')
      = Some headings_only_doc"
    by (simp add: demo_world_def demo_env_def)
  show "parseFrontMatter headings_only_doc = Inr (sample_fm, headings_only_body)" by code_simp
  show "exec title_rx sample_fm \<noteq> None" by code_simp
  show "exec platform_rx sample_fm \<noteq> None" by code_simp
  show "extractOpeningParagraph headings_only_body = []" by code_simp
  show "extractClosingParagraphs headings_only_body = []" by code_simp
qed

text \<open>
  Claim C8, as the code has it. When the opening paragraph and the closing paragraphs of
  a document are both empty, \<open>processArticle\<close> returns \<open>null\<close> and leaves the files and
  \<open>processedFiles\<close> as they were: no result is produced, and the report of the run is
  the report without the document.
\<close>

theorem empty_spans_are_skipped:
  assumes "disk w (absolute e filePath) = Some originalContent"
      and "parseFrontMatter originalContent = Inr (frontMatter, content)"
      and "exec title_rx frontMatter \<noteq> None" and "exec platform_rx frontMatter \<noteq> None"
      and "extractOpeningParagraph content = []" and "extractClosingParagraphs content = []"
  shows "processArticle e filePath w = (w, None)
       \<and> snd (generateReport e (fst (processArticle e filePath w))) = snd (generateReport e w)"
  using processArticle_skips [OF assms] by simp

theorem empty_spans_are_skipped_witness:
  "processArticle demo_env ''a.md'' (demo_world headings_only_doc) = (demo_world headings_only_doc, None)
   \<and> snd (generateReport demo_env (fst (processArticle demo_env ''a.md'' (demo_world headings_only_doc))))
       = snd (generateReport demo_env (demo_world headings_only_doc))"
proof (rule empty_spans_are_skipped)
  show "disk (demo_world headings_only_doc) (absolute demo_env ''a.md'') = Some headings_only_doc"
    by (simp add: demo_world_def demo_env_def)
  show "parseFrontMatter headings_only_doc = Inr (sample_fm, headings_only_body)" by code_simp
  show "exec title_rx sample_fm \<noteq> None" by code_simp
  show "exec platform_rx sample_fm \<noteq> None" by code_simp
  show "extractOpeningParagraph headings_only_body = []" by code_simp
  show "extractClosingParagraphs headings_only_body = []" by code_simp
qed

text \<open>
  Claim C8 as stated fails: for a document whose body starts with a heading and has no
  gist, \<open>processArticle\<close> returns \<open>null\<close>, \<open>processedFiles\<close> stays empty, and the report
  counts no successful document.
\<close>

theorem skipped_document_counterexample:
  "snd (processArticle demo_env ''a.md'' (demo_world headings_only_doc)) = None
   \<and> processedFiles (fst (processArticle demo_env ''a.md'' (demo_world headings_only_doc))) = []
   \<and> summary (snd (generateReport demo_env
        (fst (processArticle demo_env ''a.md'' (demo_world headings_only_doc)))))
      = \<lparr>total = 0, successful = 0, failed = 0\<rparr>"
  unfolding headings_only_skipped by (simp add: generateReport_def demo_world_def Let_def)

section \<open>The opening paragraph\<close>

lemma first_from_cong:
  "(\<And>k. i \<le> k \<Longrightarrow> k < i + n \<Longrightarrow> P k = Q k) \<Longrightarrow> first_from P i n = first_from Q i n"
proof (induction n arbitrary: i)
  case 0
  show ?case by simp
next
  case (Suc n)
  have "P i = Q i" by (rule Suc.prems) simp_all
  moreover have "first_from P (Suc i) n = first_from Q (Suc i) n"
    by (rule Suc.IH) (rule Suc.prems, simp_all)
  ultimately show ?case by simp
qed

lemma first_from_Some_iff:
  "first_from P i n = Some k \<longleftrightarrow> i \<le> k \<and> k < i + n \<and> P k \<and> (\<forall>j. i \<le> j \<and> j < k \<longrightarrow> \<not> P j)"
proof (induction n arbitrary: i)
  case 0
  show ?case by simp
next
  case (Suc n)
  show ?case
  proof (cases "P i")
    case True
    have "k = i" if "i \<le> k" "\<forall>j. i \<le> j \<and> j < k \<longrightarrow> \<not> P j"
    proof (rule ccontr)
      assume "k \<noteq> i"
      with that(1) have "i < k" by simp
      with that(2) True show False by blast
    qed
    with True show ?thesis by auto
  next
    case False
    have "(i \<le> k \<and> k < i + Suc n \<and> P k \<and> (\<forall>j. i \<le> j \<and> j < k \<longrightarrow> \<not> P j))
      \<longleftrightarrow> (Suc i \<le> k \<and> k < Suc i + n \<and> P k \<and> (\<forall>j. Suc i \<le> j \<and> j < k \<longrightarrow> \<not> P j))"
      (is "?A \<longleftrightarrow> ?B")
    proof
      assume a: ?A
      with False have "k \<noteq> i" by blast
      with a show ?B by auto
    next
      assume b: ?B
      have "\<not> P j" if "i \<le> j \<and> j < k" for j
      proof (cases "j = i")
        case True with False show ?thesis by simp
      next
        case False
        with that have "Suc i \<le> j \<and> j < k" by simp
        with b show ?thesis by blast
      qed
      with b show ?A by auto
    qed
    with False Suc.IH [of "Suc i"] show ?thesis by simp
  qed
qed

lemma search_index_first:
  "map_option index (search rx p s i) =
     first_from (\<lambda>k. rx_match rx (prev_after (k - i) p s) (drop (k - i) s) \<noteq> None) i
       (Suc (length s))"
proof (induction s arbitrary: p i)
  case Nil
  show ?case by (cases "rx_match rx p []") (simp_all add: prev_after_0 mk_result_def)
next
  case (Cons c cs)
  show ?case
  proof (cases "rx_match rx p (c # cs)")
    case (Some mr)
    then show ?thesis by (simp add: prev_after_0 mk_result_def)
  next
    case None
    have "first_from (\<lambda>k. rx_match rx (prev_after (k - i) p (c # cs)) (drop (k - i) (c # cs)) \<noteq> None)
            (Suc i) (Suc (length cs))
        = first_from (\<lambda>k. rx_match rx (prev_after (k - Suc i) (Some c) cs) (drop (k - Suc i) cs) \<noteq> None)
            (Suc i) (Suc (length cs))"
    proof (rule first_from_cong)
      fix k assume "Suc i \<le> k"
      then obtain d where d: "k - i = Suc d" "k - Suc i = d" by (cases "k - i") auto
      show "(rx_match rx (prev_after (k - i) p (c # cs)) (drop (k - i) (c # cs)) \<noteq> None)
          = (rx_match rx (prev_after (k - Suc i) (Some c) cs) (drop (k - Suc i) cs) \<noteq> None)"
        unfolding d by (simp only: prev_after_Suc drop_Suc_Cons)
    qed
    with None Cons.IH [of "Some c" "Suc i"] show ?thesis by (simp add: prev_after_0)
  qed
qed

lemma exec_index_first_offset:
  assumes "\<And>k. k \<le> length s \<Longrightarrow> (rx_match rx (prev_after k None s) (drop k s) \<noteq> None) = P k"
  shows "map_option index (exec rx s) = first_offset P s"
proof -
  have "first_from (\<lambda>k. rx_match rx (prev_after (k - 0) None s) (drop (k - 0) s) \<noteq> None) 0
          (Suc (length s)) = first_from P 0 (Suc (length s))"
  proof (rule first_from_cong)
    fix k :: nat assume "k < 0 + Suc (length s)"
    then have "k \<le> length s" by simp
    from assms [OF this]
    show "(rx_match rx (prev_after (k - 0) None s) (drop (k - 0) s) \<noteq> None) = P k"
      by (simp only: diff_zero)
  qed
  then show ?thesis
    unfolding exec_def first_offset_def search_index_first .
qed

lemma heading2_match:
  "k \<le> length body \<Longrightarrow>
     (rx_match heading2_rx (prev_after k None body) (drop k body) \<noteq> None) = heading2_at body k"
  by (auto simp: heading2_rx_def heading2_at_def prev_after_def)

text \<open>A repeated class before a pattern that cannot start on a character of the class
  takes the whole run.\<close>

lemma rx_match_rep_det:
  assumes "\<And>q t. t \<noteq> [] \<Longrightarrow> c (hd t) \<Longrightarrow> rx_match as q t = None"
  shows "rx_match (Rep c lo None g # as) p s =
           (if lo \<le> length (takeWhile c s)
            then rx_match as (prev_after (length (takeWhile c s)) p s) (dropWhile c s) else None)"
proof (cases "lo \<le> length (takeWhile c s)")
  case False
  then have "counts lo (length (takeWhile c s)) g = []" by (simp add: counts_def)
  with False show ?thesis by (simp add: Let_def)
next
  case True
  let ?n = "length (takeWhile c s)"
  let ?f = "\<lambda>k. rx_match as (prev_after k p s) (drop k s)"
  have "?f k = None" if "k \<in> set (counts lo ?n g)" "k \<noteq> ?n" for k
  proof -
    from that have lt: "k < ?n" by (auto simp: set_counts)
    then have "k < length s" using length_takeWhile_le [of c s] by simp
    then have ne: "drop k s \<noteq> []" by simp
    have "hd (drop k s) = s ! k" using \<open>k < length s\<close> by (simp add: hd_drop_conv_nth)
    also have "\<dots> = takeWhile c s ! k" using lt by (simp add: takeWhile_nth)
    finally have "c (hd (drop k s))" using lt by (metis nth_mem set_takeWhileD)
    with ne show ?thesis by (rule assms)
  qed
  moreover have "?n \<in> set (counts lo ?n g)" using True by (simp add: set_counts)
  ultimately have "first_some ?f (counts lo ?n g) = ?f ?n" by (rule first_some_only)
  moreover have "drop ?n s = dropWhile c s" by (simp add: dropWhile_eq_drop)
  ultimately show ?thesis using True by (simp add: Let_def)
qed

lemma gist_word_not_after_space:
  "t \<noteq> [] \<Longrightarrow> js_space (hd t) \<Longrightarrow> rx_match (Lit ''gist'' # as) q t = None"
  by (rule rx_match_Lit_Cons_None) (auto simp: js_space_def)

lemma gist_open_match:
  "(rx_match gist_open_rx p s \<noteq> None) =
     (prefix ''{{<'' s \<and> prefix ''gist'' (dropWhile js_space (drop 3 s)))"
  unfolding gist_open_rx_def
  by (simp add: rx_match_rep_det [of js_space, OF gist_word_not_after_space] numeral_3_eq_3
      del: rx_match.simps(3))

lemma gist_open_match_at:
  "k \<le> length body \<Longrightarrow>
     (rx_match gist_open_rx (prev_after k None body) (drop k body) \<noteq> None) = gist_open_at body k"
  unfolding gist_open_match gist_open_at_def ..

text \<open>
  Claim C4. \<open>extractOpeningParagraph\<close> returns the body up to \<open>opening_end\<close>, trimmed:
  up to the smaller of the offset of the first line that begins with \<open>## \<close> and the
  offset of the first opening token of a gist shortcode, up to the one of them that
  exists, or the whole body when neither does; \<open>first_from_Some_iff\<close> says that a first
  offset is the least one. The empty body gives the empty string.
\<close>

theorem opening_paragraph_span:
  "extractOpeningParagraph body = trim (take (opening_end body) body)
   \<and> extractOpeningParagraph [] = []"
proof -
  have h: "map_option index (exec heading2_rx body) = first_offset (heading2_at body) body"
    by (rule exec_index_first_offset) (rule heading2_match)
  have g: "map_option index (exec gist_open_rx body) = first_offset (gist_open_at body) body"
    by (rule exec_index_first_offset) (rule gist_open_match_at)
  have 1: "extractOpeningParagraph body = trim (take (opening_end body) body)"
    unfolding extractOpeningParagraph_def opening_end_def h [symmetric] g [symmetric]
    by (cases "exec heading2_rx body"; cases "exec gist_open_rx body") (simp_all add: Let_def)
  have 2: "extractOpeningParagraph [] = []"
    by (simp add: extractOpeningParagraph_def Let_def trim_def split: option.splits)
  from 1 2 show ?thesis by simp
qed

theorem opening_paragraph_span_witness:
  "first_offset (heading2_at sample_body) sample_body = Some 13
   \<and> first_offset (gist_open_at sample_body) sample_body = Some 24
   \<and> opening_end sample_body = 13
   \<and> extractOpeningParagraph sample_body = ''Intro text.''"
proof -
  have a: "first_offset (heading2_at sample_body) sample_body = Some 13" by code_simp
  have b: "first_offset (gist_open_at sample_body) sample_body = Some 24" by code_simp
  have c: "opening_end sample_body = 13" unfolding opening_end_def a b by simp
  have d: "trim (take 13 sample_body) = ''Intro text.''" by code_simp
  from opening_paragraph_span [of sample_body] a b c d show ?thesis by simp
qed

section \<open>The closing paragraphs\<close>

subsection \<open>The separator \<open>/\n\s*\n/\<close>\<close>

lemma first_some_map: "first_some f (map g xs) = first_some (\<lambda>x. f (g x)) xs"
  by (induction xs) (simp_all split: option.splits)

lemma rx_match_newline:
  "rx_match [Lit [CHR 0x0A]] q u =
     (case u of [] \<Rightarrow> None | c # r \<Rightarrow> if c = CHR 0x0A then Some ([], r) else None)"
  by (cases u) simp_all

lemma newline_is_space: "js_space CHR 0x0A"
  by (simp add: js_space_def)

lemma rev_upt_Suc_Suc: "rev [0 ..< Suc (Suc n)] = map Suc (rev [0 ..< Suc n]) @ [0]"
proof -
  have "[0 ..< Suc (Suc n)] = 0 # map Suc [0 ..< Suc n]"
    by (simp only: map_Suc_upt upt_conv_Cons [of 0 "Suc (Suc n)"] zero_less_Suc)
  then show ?thesis by (simp only: rev.simps rev_map)
qed

lemma last_newline_search:
  "first_some (\<lambda>k. rx_match [Lit [CHR 0x0A]] (q k) (drop k t))
     (rev [0 ..< Suc (length (takeWhile js_space t))])
   = map_option (Pair []) (last_newline_rest t)"
proof (induction t arbitrary: q)
  case Nil
  show ?case by simp
next
  case (Cons c cs)
  show ?case
  proof (cases "js_space c")
    case False
    then have "c \<noteq> CHR 0x0A" using newline_is_space by auto
    with False show ?thesis by simp
  next
    case True
    let ?n = "length (takeWhile js_space cs)"
    have "first_some (\<lambda>k. rx_match [Lit [CHR 0x0A]] (q k) (drop k (c # cs))) (rev [0 ..< Suc (Suc ?n)])
        = (case first_some (\<lambda>k. rx_match [Lit [CHR 0x0A]] (q (Suc k)) (drop k cs)) (rev [0 ..< Suc ?n]) of
             Some y \<Rightarrow> Some y
           | None \<Rightarrow> rx_match [Lit [CHR 0x0A]] (q 0) (c # cs))"
      unfolding rev_upt_Suc_Suc first_some_append first_some_map
      by (simp split: option.splits)
    also have "first_some (\<lambda>k. rx_match [Lit [CHR 0x0A]] (q (Suc k)) (drop k cs)) (rev [0 ..< Suc ?n])
        = map_option (Pair []) (last_newline_rest cs)"
      by (rule Cons.IH)
    finally show ?thesis using True
      by (simp add: rx_match_newline split: option.splits)
  qed
qed

lemma blank_line_match:
  "rx_match blank_line_rx p s =
     (case s of
        [] \<Rightarrow> None
      | c # t \<Rightarrow> if c = CHR 0x0A then map_option (Pair []) (last_newline_rest t) else None)"
proof (cases s)
  case Nil
  then show ?thesis by (simp add: blank_line_rx_def)
next
  case (Cons c t)
  show ?thesis
  proof (cases "c = CHR 0x0A")
    case False
    with Cons show ?thesis by (simp add: blank_line_rx_def)
  next
    case True
    have "rx_match blank_line_rx p (CHR 0x0A # t)
        = first_some (\<lambda>k. rx_match [Lit [CHR 0x0A]] (prev_after k (Some CHR 0x0A) t) (drop k t))
            (rev [0 ..< Suc (length (takeWhile js_space t))])"
      by (simp add: blank_line_rx_def Let_def counts_def prev_after_def)
    then have "rx_match blank_line_rx p (CHR 0x0A # t) = map_option (Pair []) (last_newline_rest t)"
      by (simp only: last_newline_search)
    with Cons True show ?thesis by simp
  qed
qed

subsection \<open>Lines\<close>

lemma lines_of_not_Nil: "lines_of s \<noteq> []"
  by (induction s) (simp_all split: list.splits)

lemma text_of_lines: "s = hd (lines_of s) @ following (tl (lines_of s))"
proof (induction s)
  case Nil
  show ?case by (simp add: following_def)
next
  case (Cons c cs)
  obtain l ls where l: "lines_of cs = l # ls" using lines_of_not_Nil [of cs] by (cases "lines_of cs") auto
  with Cons show ?case by (simp add: following_def)
qed

lemma lines_of_newline_free: "l \<in> set (lines_of s) \<Longrightarrow> CHR 0x0A \<notin> set l"
proof (induction s arbitrary: l)
  case Nil
  then show ?case by simp
next
  case (Cons c cs)
  obtain l' ls where l: "lines_of cs = l' # ls" using lines_of_not_Nil [of cs] by (cases "lines_of cs") auto
  with Cons show ?case by (auto split: if_splits)
qed

lemma blank_Nil: "blank []"
  by (simp add: blank_def)

lemma last_newline_rest_not_blank:
  "CHR 0x0A \<notin> set l \<Longrightarrow> \<not> blank l \<Longrightarrow> last_newline_rest (l @ x) = None"
  by (induction l) (auto simp: blank_def)

lemma last_newline_rest_last_line:
  "CHR 0x0A \<notin> set l \<Longrightarrow> last_newline_rest l = None"
  by (induction l) auto

lemma hd_skip_blank_text:
  "ls \<noteq> [] \<Longrightarrow> skip_blank ls \<noteq> []"
  by (induction ls rule: skip_blank.induct) auto

lemma last_newline_rest_blank:
  assumes "\<forall>l \<in> set (l # ls). CHR 0x0A \<notin> set l" and "blank l" and "ls \<noteq> []"
  shows "last_newline_rest (l @ following ls)
           = Some (hd (skip_blank ls) @ following (tl (skip_blank ls)))"
  using assms
proof (induction ls arbitrary: l rule: skip_blank.induct)
  case 1
  then show ?case by simp
next
  case (2 l1)
  have inner: "last_newline_rest l1 = None" using 2 by (simp add: last_newline_rest_last_line)
  have "last_newline_rest (l @ CHR 0x0A # l1) = Some l1"
    using \<open>blank l\<close> inner by (induction l) (auto simp: blank_def newline_is_space)
  then show ?case by (simp add: following_def)
next
  case (3 l1 l2 ls)
  have step: "last_newline_rest (l @ CHR 0x0A # x) = (case last_newline_rest x of Some r \<Rightarrow> Some r | None \<Rightarrow> Some x)" for x
    using \<open>blank l\<close> "3.prems"(1)
    by (induction l) (auto simp: blank_def newline_is_space split: option.splits)
  show ?case
  proof (cases "blank l1")
    case True
    have "last_newline_rest (l1 @ following (l2 # ls))
        = Some (hd (skip_blank (l2 # ls)) @ following (tl (skip_blank (l2 # ls))))"
      using "3.IH" [OF True, of l1] "3.prems"(1) True by simp
    with True show ?thesis
      using step [of "l1 @ following (l2 # ls)"] by (simp add: following_def)
  next
    case False
    have "last_newline_rest (l1 @ following (l2 # ls)) = None"
      using "3.prems"(1) False by (simp add: last_newline_rest_not_blank)
    with False show ?thesis
      using step [of "l1 @ following (l2 # ls)"] by (simp add: following_def)
  qed
qed

lemma last_newline_rest_lines:
  assumes "\<forall>l \<in> set (l # ls). CHR 0x0A \<notin> set l"
  shows "last_newline_rest (l @ following ls)
     = (if blank l \<and> ls \<noteq> []
        then Some (hd (skip_blank ls) @ following (tl (skip_blank ls))) else None)"
proof (cases "blank l")
  case False
  with assms show ?thesis by (simp add: last_newline_rest_not_blank)
next
  case True
  show ?thesis
  proof (cases "ls = []")
    case True
    with assms show ?thesis by (simp add: following_def last_newline_rest_last_line)
  next
    case False
    with True last_newline_rest_blank [OF assms] show ?thesis by simp
  qed
qed

lemma dropWhile_spaces: "list_all P ws \<Longrightarrow> dropWhile P (ws @ x) = dropWhile P x"
  by (induction ws) simp_all

lemma dropWhile_all_iff: "(\<forall>x \<in> set (dropWhile P s). P x) \<longleftrightarrow> (\<forall>x \<in> set s. P x)"
proof
  assume a: "\<forall>x \<in> set (dropWhile P s). P x"
  have "dropWhile P s = []"
  proof (rule ccontr)
    assume ne: "dropWhile P s \<noteq> []"
    then have "\<not> P (hd (dropWhile P s))" by (rule hd_dropWhile)
    moreover have "hd (dropWhile P s) \<in> set (dropWhile P s)" using ne by simp
    ultimately show False using a by blast
  qed
  then show "\<forall>x \<in> set s. P x" by (simp add: dropWhile_eq_Nil_conv)
next
  assume "\<forall>x \<in> set s. P x"
  then show "\<forall>x \<in> set (dropWhile P s). P x" by (meson set_dropWhileD)
qed

lemma trim_Nil_iff: "trim s = [] \<longleftrightarrow> list_all js_space s"
  by (simp add: trim_def dropWhile_eq_Nil_conv list_all_iff dropWhile_all_iff)

lemma trim_spaces_append: "list_all js_space ws \<Longrightarrow> trim (ws @ x) = trim x"
  by (simp add: trim_def dropWhile_spaces)

lemma trim_append_spaces:
  assumes "list_all js_space ws"
  shows "trim (x @ ws) = trim x"
proof (cases "list_all js_space x")
  case True
  with assms have "list_all js_space (x @ ws)" by simp
  with True show ?thesis by (simp only: trim_Nil_iff [symmetric])
next
  case False
  then obtain a where a: "a \<in> set x" "\<not> js_space a" by (auto simp: list_all_iff)
  then have "dropWhile js_space (x @ ws) = dropWhile js_space x @ ws"
    by (simp add: dropWhile_append1)
  moreover have "dropWhile js_space (rev ws @ y) = dropWhile js_space y" for y
    by (rule dropWhile_spaces) (use assms in \<open>simp add: list_all_iff\<close>)
  ultimately show ?thesis by (simp add: trim_def)
qed

lemma join_Cons_ne: "c \<noteq> [] \<Longrightarrow> join sep (l # c) = l @ sep @ join sep c"
  by (cases c) simp_all

lemma join_snoc: "c \<noteq> [] \<Longrightarrow> join sep (c @ [l]) = join sep c @ sep @ l"
proof (induction c)
  case Nil then show ?case by simp
next
  case (Cons a c)
  show ?case
  proof (cases "c = []")
    case True then show ?thesis by simp
  next
    case False
    with Cons.IH have "join sep (c @ [l]) = join sep c @ sep @ l" by simp
    with False show ?thesis by (simp add: join_Cons_ne)
  qed
qed

lemma join_starts: "c \<noteq> [] \<Longrightarrow> \<exists>x. join sep c = hd c @ x"
  by (cases c; cases "tl c") auto

lemma join_not_blank:
  assumes "c \<noteq> []" and "list_all (\<lambda>l. \<not> blank l) c"
  shows "trim (join sep c) \<noteq> []"
proof -
  from assms have "\<not> blank (hd c)" by (cases c) simp_all
  then obtain a where "a \<in> set (hd c)" "\<not> js_space a" by (auto simp: blank_def list_all_iff)
  moreover obtain x where "join sep c = hd c @ x" using join_starts [OF assms(1)] by blast
  ultimately have "\<not> list_all js_space (join sep c)" by (auto simp: list_all_iff)
  then show ?thesis by (simp add: trim_Nil_iff)
qed

lemma split_loop_line:
  "CHR 0x0A \<notin> set l \<Longrightarrow>
     \<exists>q. split_loop blank_line_rx p acc (l @ x) = split_loop blank_line_rx q (rev l @ acc) x"
proof (induction l arbitrary: p acc)
  case Nil
  show ?case by auto
next
  case (Cons c l)
  then have "c \<noteq> CHR 0x0A" and nl: "CHR 0x0A \<notin> set l" by auto
  then have "split_loop blank_line_rx p acc ((c # l) @ x)
      = split_loop blank_line_rx (Some c) (c # acc) (l @ x)"
    by (simp add: blank_line_match)
  moreover obtain q where "split_loop blank_line_rx (Some c) (c # acc) (l @ x)
      = split_loop blank_line_rx q (rev l @ c # acc) x"
    using Cons.IH [OF nl] by blast
  ultimately show ?case by auto
qed

lemma last_newline_rest_shorter: "last_newline_rest t = Some r \<Longrightarrow> length r \<le> length t"
  by (induction t arbitrary: r) (auto split: if_splits option.splits simp: le_Suc_eq)

lemma skip_blank_subset: "set (skip_blank ls) \<subseteq> set ls"
  by (induction ls rule: skip_blank.induct) auto

lemma length_skip_blank: "length (skip_blank ls) \<le> length ls"
  by (induction ls rule: skip_blank.induct) auto

lemma runs_skip_blank: "runs [] (skip_blank ls) = runs [] ls"
  by (induction ls rule: skip_blank.induct) auto

lemma split_loop_separator:
  assumes "last_newline_rest t = Some r"
  shows "\<exists>q. split_loop blank_line_rx p acc (CHR 0x0A # t) = rev acc # split_loop blank_line_rx q [] r"
proof -
  from assms have "length r \<le> length t" by (rule last_newline_rest_shorter)
  then have "r \<noteq> CHR 0x0A # t" by auto
  with assms have "split_loop blank_line_rx p acc (CHR 0x0A # t)
      = rev acc # split_loop blank_line_rx
          (prev_after (length (CHR 0x0A # t) - length r) p (CHR 0x0A # t)) [] r"
    by (simp add: blank_line_match)
  then show ?thesis by blast
qed

lemma split_loop_no_separator:
  assumes "last_newline_rest t = None"
  shows "split_loop blank_line_rx p acc (CHR 0x0A # t)
     = split_loop blank_line_rx (Some CHR 0x0A) (CHR 0x0A # acc) t"
  using assms by (simp add: blank_line_match)

subsection \<open>The pieces of the split, trimmed, are the paragraphs\<close>

lemma split_pieces_are_paragraphs:
  assumes "\<forall>l \<in> set todo. CHR 0x0A \<notin> set l"
      and "list_all js_space ws" and "list_all (\<lambda>l. \<not> blank l) c"
      and "rev acc = ws @ join ''\<newline>'' c"
  shows "filter (\<lambda>p. p \<noteq> []) (map trim (split_loop blank_line_rx p acc (following todo)))
           = map (\<lambda>ls. trim (join ''\<newline>'' ls)) (runs c todo)"
  using assms
proof (induction "length todo" arbitrary: todo p acc ws c rule: less_induct)
  case less
  note nl = less.prems(1) and ws = less.prems(2) and c = less.prems(3) and acc = less.prems(4)
  have cur: "trim (rev acc) = trim (join ''\<newline>'' c)"
    unfolding acc using ws by (rule trim_spaces_append)
  have cur_Nil: "trim (rev acc) = []" if "c = []"
    using cur that by (simp add: trim_def)
  have cur_ne: "trim (rev acc) \<noteq> []" if "c \<noteq> []"
    unfolding cur using that c by (rule join_not_blank)
  have last_piece: "filter (\<lambda>p. p \<noteq> []) [trim (rev acc @ x)] = map (\<lambda>ls. trim (join ''\<newline>'' ls)) (if c = [] then [] else [c])"
    if "list_all js_space x" for x
  proof -
    have "trim (rev acc @ x) = trim (rev acc)" using that by (rule trim_append_spaces)
    then show ?thesis using cur cur_Nil cur_ne by (cases "c = []") simp_all
  qed
  show ?case
  proof (cases todo)
    case Nil
    then show ?thesis using last_piece [of "[]"] by (simp add: following_def)
  next
    case (Cons l ls)
    have nll: "CHR 0x0A \<notin> set l" and nls: "\<forall>l \<in> set ls. CHR 0x0A \<notin> set l"
      using nl Cons by simp_all
    have fol: "following todo = CHR 0x0A # (l @ following ls)"
      by (simp add: Cons following_def)
    have lnr: "last_newline_rest (l @ following ls)
       = (if blank l \<and> ls \<noteq> []
          then Some (hd (skip_blank ls) @ following (tl (skip_blank ls))) else None)"
      by (rule last_newline_rest_lines) (use nl Cons in simp)
    show ?thesis
    proof (cases "blank l \<and> ls \<noteq> []")
      case True
      let ?h = "hd (skip_blank ls)" and ?t = "tl (skip_blank ls)"
      have ne: "skip_blank ls \<noteq> []" using True by (simp add: hd_skip_blank_text)
      have sk: "runs x (skip_blank ls) = runs x (?h # ?t)" for x
        by (simp only: hd_Cons_tl [OF ne])
      have "?h \<in> set (skip_blank ls)" using ne by (rule hd_in_set)
      then have hin: "?h \<in> set ls" using skip_blank_subset [of ls] by blast
      have tin: "x \<in> set ls" if "x \<in> set ?t" for x
        using list.set_sel(2) [OF ne that] skip_blank_subset [of ls] by blast
      have nlh: "CHR 0x0A \<notin> set ?h" using nls hin by blast
      have nlt: "\<forall>l \<in> set ?t. CHR 0x0A \<notin> set l" using nls tin by blast
      have len: "length ?t < length todo"
        using length_skip_blank [of ls] Cons by simp
      obtain q where q: "split_loop blank_line_rx p acc (following todo)
          = rev acc # split_loop blank_line_rx q [] (?h @ following ?t)"
        unfolding fol using split_loop_separator [of "l @ following ls" _ p acc] lnr True by auto
      obtain q' where q': "split_loop blank_line_rx q [] (?h @ following ?t)
          = split_loop blank_line_rx q' (rev ?h) (following ?t)"
        using split_loop_line [OF nlh, of q "[]" "following ?t"] by auto
      have next_piece: "filter (\<lambda>p. p \<noteq> []) (map trim (split_loop blank_line_rx q' (rev ?h) (following ?t)))
          = map (\<lambda>ls. trim (join ''\<newline>'' ls)) (runs [] ls)"
      proof (cases "blank ?h")
        case True
        have "filter (\<lambda>p. p \<noteq> []) (map trim (split_loop blank_line_rx q' (rev ?h) (following ?t)))
            = map (\<lambda>ls. trim (join ''\<newline>'' ls)) (runs [] ?t)"
          by (rule less.hyps [OF len nlt, of ?h "[]"]) (use True in \<open>simp_all add: blank_def\<close>)
        also have "runs [] ?t = runs [] (skip_blank ls)" using True unfolding sk by simp
        finally show ?thesis by (simp add: runs_skip_blank)
      next
        case False
        have "filter (\<lambda>p. p \<noteq> []) (map trim (split_loop blank_line_rx q' (rev ?h) (following ?t)))
            = map (\<lambda>ls. trim (join ''\<newline>'' ls)) (runs [?h] ?t)"
          by (rule less.hyps [OF len nlt, of "[]" "[?h]"]) (use False in simp_all)
        also have "runs [?h] ?t = runs [] (skip_blank ls)" using False unfolding sk by simp
        finally show ?thesis by (simp add: runs_skip_blank)
      qed
      show ?thesis
        unfolding q q' using next_piece True cur cur_Nil cur_ne
        by (cases "c = []") (simp_all add: Cons)
    next
      case False
      then have none: "last_newline_rest (l @ following ls) = None" using lnr by simp
      obtain q where q: "split_loop blank_line_rx p acc (following todo)
          = split_loop blank_line_rx q (rev l @ CHR 0x0A # acc) (following ls)"
        unfolding fol split_loop_no_separator [OF none]
        using split_loop_line [OF nll, of "Some CHR 0x0A" "CHR 0x0A # acc" "following ls"] by auto
      have racc: "rev (rev l @ CHR 0x0A # acc) = rev acc @ CHR 0x0A # l" by simp
      show ?thesis
      proof (cases "blank l")
        case True
        with False have lsN: "ls = []" by simp
        have "list_all js_space (CHR 0x0A # l)" using True by (simp add: blank_def newline_is_space)
        from last_piece [OF this] show ?thesis
          unfolding q using True by (simp add: lsN Cons following_def)
      next
        case nb: False
        have len: "length ls < length todo" using Cons by simp
        have "filter (\<lambda>p. p \<noteq> []) (map trim (split_loop blank_line_rx q (rev l @ CHR 0x0A # acc) (following ls)))
            = map (\<lambda>ls. trim (join ''\<newline>'' ls)) (runs (c @ [l]) ls)"
        proof (cases "c = []")
          case True
          show ?thesis
            by (rule less.hyps [OF len nls, of "ws @ ''\<newline>''"])
               (use ws nb True acc in \<open>simp_all add: newline_is_space\<close>)
        next
          case False
          show ?thesis
            by (rule less.hyps [OF len nls, of ws])
               (use ws nb c False acc in \<open>simp_all add: join_snoc\<close>)
        qed
        then show ?thesis unfolding q using nb by (simp add: Cons)
      qed
    qed
  qed
qed

lemma split_blank_lines_paragraphs:
  "filter (\<lambda>p. p \<noteq> []) (map trim (split blank_line_rx s)) = map trim (paragraphs s)"
proof (cases "s = []")
  case True
  then show ?thesis
    by (simp add: split_def blank_line_match paragraphs_def blank_Nil trim_def)
next
  case False
  let ?l = "hd (lines_of s)" and ?ls = "tl (lines_of s)"
  have ne: "lines_of s \<noteq> []" by (rule lines_of_not_Nil)
  have lines: "runs x (lines_of s) = runs x (?l # ?ls)" for x
    by (simp only: hd_Cons_tl [OF ne])
  have "?l \<in> set (lines_of s)" using ne by (rule hd_in_set)
  then have nl: "CHR 0x0A \<notin> set ?l" by (rule lines_of_newline_free)
  have nls: "\<forall>l \<in> set ?ls. CHR 0x0A \<notin> set l"
    using list.set_sel(2) [OF ne] lines_of_newline_free [of _ s] by blast
  have s: "s = ?l @ following ?ls" by (rule text_of_lines)
  obtain q where q: "split_loop blank_line_rx None [] (?l @ following ?ls)
      = split_loop blank_line_rx q (rev ?l) (following ?ls)"
    using split_loop_line [OF nl, of None "[]" "following ?ls"] by auto
  have "filter (\<lambda>p. p \<noteq> []) (map trim (split_loop blank_line_rx q (rev ?l) (following ?ls)))
      = map (\<lambda>ls. trim (join ''\<newline>'' ls)) (runs [] (lines_of s))"
  proof (cases "blank ?l")
    case True
    have "filter (\<lambda>p. p \<noteq> []) (map trim (split_loop blank_line_rx q (rev ?l) (following ?ls)))
        = map (\<lambda>ls. trim (join ''\<newline>'' ls)) (runs [] ?ls)"
      by (rule split_pieces_are_paragraphs [OF nls, of ?l "[]"]) (use True in \<open>simp_all add: blank_def\<close>)
    also have "runs [] ?ls = runs [] (lines_of s)" using True unfolding lines by simp
    finally show ?thesis .
  next
    case False
    have "filter (\<lambda>p. p \<noteq> []) (map trim (split_loop blank_line_rx q (rev ?l) (following ?ls)))
        = map (\<lambda>ls. trim (join ''\<newline>'' ls)) (runs [?l] ?ls)"
      by (rule split_pieces_are_paragraphs [OF nls, of "[]" "[?l]"]) (use False in simp_all)
    also have "runs [?l] ?ls = runs [] (lines_of s)" using False unfolding lines by simp
    finally show ?thesis .
  qed
  moreover have "split blank_line_rx s = split_loop blank_line_rx None [] (?l @ following ?ls)"
  proof -
    have "split blank_line_rx s = split_loop blank_line_rx None [] s"
      using False by (simp add: split_def)
    also from s have "\<dots> = split_loop blank_line_rx None [] (?l @ following ?ls)"
      by (rule arg_cong)
    finally show ?thesis .
  qed
  ultimately show ?thesis by (simp only: q paragraphs_def map_map comp_def)
qed

lemma test_anchored:
  "test (Bos # as) s \<longleftrightarrow> rx_match as None s \<noteq> None"
proof -
  have "rx_match (Bos # as) (prev_after k None s) (drop k s) = None" if "k \<noteq> 0" for k
    using that by (simp add: prev_after_def)
  then have "(\<forall>k \<le> length s. rx_match (Bos # as) (prev_after k None s) (drop k s) = None)
      \<longleftrightarrow> rx_match (Bos # as) (prev_after 0 None s) (drop 0 s) = None"
    by (metis le0)
  then show ?thesis
    unfolding test_def exec_def search_None_iff by (simp add: prev_after_0)
qed

lemma one_space_not_after_hash:
  "t \<noteq> [] \<Longrightarrow> is_char CHR ''#'' (hd t) \<Longrightarrow> rx_match [exactly 1 js_space] q t = None"
  by (cases t) (auto simp: rx_match_exactly is_char_def js_space_def simp del: rx_match.simps(3))

lemma heading_start_test: "test heading_start_rx p \<longleftrightarrow> heading_start p"
proof -
  let ?n = "length (takeWhile (is_char CHR ''#'') p)"
  let ?u = "dropWhile (is_char CHR ''#'') p"
  have 1: "1 \<le> ?n \<longleftrightarrow> prefix ''#'' p"
    by (cases p) (auto simp: is_char_def)
  have 2: "rx_match [exactly 1 js_space] q u \<noteq> None
      \<longleftrightarrow> (case u of [] \<Rightarrow> False | c # cs \<Rightarrow> js_space c)" for q u
    by (cases u) (simp_all add: rx_match_exactly del: rx_match.simps(3))
  have "rx_match [plus (is_char CHR ''#''), exactly 1 js_space] None p
      = (if 1 \<le> ?n then rx_match [exactly 1 js_space] (prev_after ?n None p) ?u else None)"
    by (rule rx_match_rep_det) (rule one_space_not_after_hash)
  then show ?thesis
    unfolding heading_start_rx_def test_anchored heading_start_def
    using 1 2 [of "prev_after ?n None p" ?u] by (simp del: rx_match.simps)
qed

subsection \<open>The occurrences of the gist shortcode\<close>

lemma matchAll_after:
  "r \<in> set (matchAll rx p s i) \<Longrightarrow>
     \<exists>k. index r = i + k \<and> drop (k + length (matched r)) s = rest r"
proof (induction rx p s i rule: matchAll.induct)
  case (1 rx p s i)
  show ?case
  proof (cases "search rx p s i")
    case None
    with "1.prems" show ?thesis by (simp add: matchAll.simps [of rx p s i])
  next
    case (Some r0)
    from search_split [OF Some] obtain pre where
      s: "s = pre @ matched r0 @ rest r0" and i0: "index r0 = i + length pre" by blast
    have "drop (length pre + length (matched r0)) s = rest r0"
      by (subst s) simp
    with i0 have first: "\<exists>k. index r0 = i + k \<and> drop (k + length (matched r0)) s = rest r0"
      by blast
    show ?thesis
    proof (cases "r = r0")
      case True
      with first show ?thesis by simp
    next
      case False
      show ?thesis
      proof (cases "matched r0 = []")
        case True
        with "1.prems" Some False obtain c cs where cs: "rest r0 = c # cs"
          and mem: "r \<in> set (matchAll rx (Some c) cs (Suc (index r0)))"
          by (cases "rest r0") (auto simp: matchAll.simps [of rx p s i])
        from "1.IH"(1) [OF Some True cs mem] obtain k where
          k: "index r = Suc (index r0) + k" "drop (k + length (matched r)) cs = rest r" by blast
        have "s = (pre @ [c]) @ cs" using s True cs by simp
        then have "drop (length (pre @ [c]) + (k + length (matched r))) s
            = drop (k + length (matched r)) cs"
          by (metis append_eq_conv_conj drop_drop add.commute)
        with k i0 have "index r = i + (length pre + 1 + k)
            \<and> drop ((length pre + 1 + k) + length (matched r)) s = rest r"
          by (simp add: add.assoc)
        then show ?thesis by blast
      next
        case ne: False
        with "1.prems" Some False
        have mem: "r \<in> set (matchAll rx (Some (last (matched r0))) (rest r0)
            (index r0 + length (matched r0)))"
          by (auto simp: matchAll.simps [of rx p s i])
        from "1.IH"(2) [OF Some ne mem] obtain k where
          k: "index r = index r0 + length (matched r0) + k"
             "drop (k + length (matched r)) (rest r0) = rest r" by blast
        have "s = (pre @ matched r0) @ rest r0" using s by simp
        then have "drop (length (pre @ matched r0) + (k + length (matched r))) s
            = drop (k + length (matched r)) (rest r0)"
          by (metis append_eq_conv_conj drop_drop add.commute)
        with k i0 have "index r = i + (length pre + length (matched r0) + k)
            \<and> drop ((length pre + length (matched r0) + k) + length (matched r)) s = rest r"
          by (simp add: add.assoc)
        then show ?thesis by blast
      qed
    qed
  qed
qed

lemma match_all_after:
  "r \<in> set (match_all rx s) \<Longrightarrow> drop (index r + length (matched r)) s = rest r"
  using matchAll_after [of r rx None s 0] by (auto simp: match_all_def)

lemma first_some_first:
  "first_some f xs = Some y \<Longrightarrow>
     \<exists>i < length xs. f (xs ! i) = Some y \<and> (\<forall>j<i. f (xs ! j) = None)"
proof (induction xs)
  case Nil
  then show ?case by simp
next
  case (Cons x xs)
  show ?case
  proof (cases "f x")
    case (Some z)
    with Cons.prems have "f ((x # xs) ! 0) = Some y \<and> (\<forall>j<0. f ((x # xs) ! j) = None)" by simp
    then show ?thesis by blast
  next
    case None
    with Cons obtain i where i: "i < length xs" "f (xs ! i) = Some y" "\<forall>j<i. f (xs ! j) = None"
      by auto
    have "\<forall>j<Suc i. f ((x # xs) ! j) = None"
    proof (intro allI impI)
      fix j assume "j < Suc i"
      then show "f ((x # xs) ! j) = None" using None i(3) by (cases j) simp_all
    qed
    with i show ?thesis by (intro exI [of _ "Suc i"]) simp
  qed
qed

lemma rx_match_lazyD:
  assumes "rx_match (Rep c lo None False # as) p s = Some mr"
  shows "\<exists>k. lo \<le> k \<and> k \<le> length (takeWhile c s)
           \<and> rx_match as (prev_after k p s) (drop k s) = Some mr
           \<and> (\<forall>j. lo \<le> j \<and> j < k \<longrightarrow> rx_match as (prev_after j p s) (drop j s) = None)"
proof -
  let ?n = "length (takeWhile c s)"
  let ?f = "\<lambda>k. rx_match as (prev_after k p s) (drop k s)"
  from assms have "first_some ?f [lo ..< Suc ?n] = Some mr"
    by (simp add: Let_def counts_def del: upt_Suc)
  from first_some_first [OF this] obtain i where i: "i < length [lo ..< Suc ?n]"
    "?f ([lo ..< Suc ?n] ! i) = Some mr" "\<forall>j<i. ?f ([lo ..< Suc ?n] ! j) = None" by blast
  have nth: "[lo ..< Suc ?n] ! j = lo + j" if "j \<le> i" for j
    using that i(1) by (simp del: upt_Suc)
  have "lo \<le> lo + i" "lo + i \<le> ?n" using i(1) by (simp_all del: upt_Suc)
  moreover have "?f (lo + i) = Some mr" using i(2) nth [of i] by simp
  moreover have "?f j = None" if "lo \<le> j \<and> j < lo + i" for j
  proof -
    from that have "j - lo < i" "lo + (j - lo) = j" by arith+
    with i(3) nth [of "j - lo"] show ?thesis by (metis less_imp_le)
  qed
  ultimately show ?thesis by blast
qed

lemma prefix_drop: "prefix l u \<Longrightarrow> u = l @ drop (length l) u"
  by (auto simp: prefix_def)

text \<open>A match of the gist pattern runs from \<open>{{<\<close>, white space and \<open>gist\<close> to the
  first \<open>>}}\<close> after them.\<close>

lemma gist_match_shape:
  assumes "rx_match gist_rx p s = Some (ms, r)"
  shows "\<exists>w inner. s = ''{{<'' @ w @ ''gist'' @ inner @ ''>}}'' @ r \<and> list_all js_space w
           \<and> (\<forall>j<length inner. \<not> prefix ''>}}'' (drop j (inner @ ''>}}'' @ r)))"
proof -
  let ?tail = "[lazy_star any_char, Lit ''>}}'']"
  have len3: "length ''{{<'' = 3" and len4: "length ''gist'' = 4"
    and len3': "length ''>}}'' = 3" by simp_all
  from rx_match_LitD [OF assms [unfolded gist_rx_def]] have 1: "prefix ''{{<'' s"
    and 2: "rx_match (star js_space # Lit ''gist'' # ?tail) (prev_after 3 p s) (drop 3 s) = Some (ms, r)"
    unfolding len3 by blast+
  let ?s1 = "drop 3 s"
  let ?w = "takeWhile js_space ?s1" and ?s2 = "dropWhile js_space ?s1"
  have s: "s = ''{{<'' @ ?w @ ?s2" using 1 by (auto simp: prefix_def)
  from 2 have "rx_match (Lit ''gist'' # ?tail) (prev_after (length ?w) (prev_after 3 p s) ?s1) ?s2
      = Some (ms, r)"
    by (simp add: rx_match_rep_det [of js_space, OF gist_word_not_after_space]
        del: rx_match.simps)
  from rx_match_LitD [OF this] obtain q where 3: "prefix ''gist'' ?s2"
    and 4: "rx_match ?tail q (drop 4 ?s2) = Some (ms, r)" unfolding len4 by blast
  let ?t = "drop 4 ?s2"
  have s2: "?s2 = ''gist'' @ ?t" using 3 by (auto simp: prefix_def)
  from rx_match_lazyD [OF 4] obtain k where k: "k \<le> length (takeWhile any_char ?t)"
    "rx_match [Lit ''>}}''] (prev_after k q ?t) (drop k ?t) = Some (ms, r)"
    "\<forall>j. 0 \<le> j \<and> j < k \<longrightarrow> rx_match [Lit ''>}}''] (prev_after j q ?t) (drop j ?t) = None"
    by blast
  have kt: "k \<le> length ?t" using k(1) length_takeWhile_le [of any_char ?t] by (rule order_trans)
  from rx_match_LitD [OF k(2)] have hit: "prefix ''>}}'' (drop k ?t)"
    and r: "r = drop 3 (drop k ?t)"
    unfolding len3' by (simp_all del: drop_drop)
  have miss: "\<not> prefix ''>}}'' (drop j ?t)" if "j < k" for j
  proof -
    from that k(3) have "rx_match [Lit ''>}}''] (prev_after j q ?t) (drop j ?t) = None" by simp
    then show ?thesis by (simp split: if_splits)
  qed
  let ?inner = "take k ?t"
  have len: "length ?inner = k" using kt by simp
  have t: "?t = ?inner @ ''>}}'' @ r"
  proof -
    from hit have "drop k ?t = ''>}}'' @ drop (length ''>}}'') (drop k ?t)" by (rule prefix_drop)
    then have "drop k ?t = ''>}}'' @ drop 3 (drop k ?t)" by (simp only: len3')
    then have "?t = take k ?t @ ''>}}'' @ drop 3 (drop k ?t)"
      by (metis append_take_drop_id)
    then show ?thesis using r by simp
  qed
  have "s = ''{{<'' @ ?w @ ''gist'' @ ?inner @ ''>}}'' @ r"
    using s s2 t by (metis append_assoc)
  moreover have "list_all js_space ?w" by (simp add: list_all_iff) (meson set_takeWhileD)
  moreover have "\<forall>j<length ?inner. \<not> prefix ''>}}'' (drop j (?inner @ ''>}}'' @ r))"
    using miss len t by metis
  ultimately show ?thesis by blast
qed

text \<open>
  Claim C3. Without an occurrence of the gist shortcode \<open>extractClosingParagraphs\<close>
  returns the empty sequence. Otherwise it returns, in their order, the trimmed
  paragraphs of the text after the end of the last occurrence (\<open>match_all_after\<close>: what
  follows that match), leaving out those that are empty or begin with a heading marker.
  An occurrence runs from its opening token to the first closing token after it
  (\<open>gist_match_shape\<close>).
\<close>

theorem closing_paragraphs:
  "(match_all gist_rx body = [] \<longrightarrow> extractClosingParagraphs body = [])
   \<and> (match_all gist_rx body \<noteq> [] \<longrightarrow>
        extractClosingParagraphs body =
          filter (\<lambda>p. p \<noteq> [] \<and> \<not> heading_start p)
            (map trim (paragraphs
               (drop (index (last (match_all gist_rx body))
                        + length (matched (last (match_all gist_rx body)))) body))))"
proof -
  let ?ms = "match_all gist_rx body"
  let ?after = "drop (index (last ?ms) + length (matched (last ?ms))) body"
  have pieces: "filter (\<lambda>p. p \<noteq> [] \<and> \<not> heading_start p) (map trim (split blank_line_rx t))
      = filter (\<lambda>p. p \<noteq> [] \<and> \<not> heading_start p) (map trim (paragraphs t))" for t
  proof -
    have "filter (\<lambda>p. p \<noteq> [] \<and> \<not> heading_start p) (map trim (split blank_line_rx t))
        = filter (\<lambda>p. \<not> heading_start p) (filter (\<lambda>p. p \<noteq> []) (map trim (split blank_line_rx t)))"
      by (simp only: filter_filter)
    also have "\<dots> = filter (\<lambda>p. \<not> heading_start p) (map trim (paragraphs t))"
      by (simp only: split_blank_lines_paragraphs)
    also have "map trim (paragraphs t) = filter (\<lambda>p. p \<noteq> []) (map trim (paragraphs t))"
      by (simp only: split_blank_lines_paragraphs [symmetric] filter_filter conj_absorb)
    finally show ?thesis by (simp only: filter_filter)
  qed
  have "extractClosingParagraphs body = []" if "?ms = []"
    using that by (simp add: extractClosingParagraphs_def)
  moreover have "extractClosingParagraphs body =
      filter (\<lambda>p. p \<noteq> [] \<and> \<not> heading_start p) (map trim (paragraphs ?after))" if "?ms \<noteq> []"
    using that pieces [of ?after]
    by (simp add: extractClosingParagraphs_def Let_def last_conv_nth heading_start_test)
  ultimately show ?thesis by blast
qed

theorem closing_paragraphs_witness:
  "match_all gist_rx sample_body \<noteq> []
   \<and> drop (index (last (match_all gist_rx sample_body))
            + length (matched (last (match_all gist_rx sample_body)))) sample_body
       = ''\<newline>\<newline>Closing one.\<newline>\<newline>Closing two.''
   \<and> paragraphs ''\<newline>\<newline>Closing one.\<newline>\<newline>Closing two.'' = [''Closing one.'', ''Closing two.'']
   \<and> extractClosingParagraphs sample_body = [''Closing one.'', ''Closing two.'']
   \<and> match_all gist_rx ''No shortcode here.'' = []
   \<and> extractClosingParagraphs ''No shortcode here.'' = []"
proof -
  let ?after = "''\<newline>\<newline>Closing one.\<newline>\<newline>Closing two.''"
  have ne: "match_all gist_rx sample_body \<noteq> []" by code_simp
  have after: "drop (index (last (match_all gist_rx sample_body))
            + length (matched (last (match_all gist_rx sample_body)))) sample_body = ?after"
    by code_simp
  have ps: "paragraphs ?after = [''Closing one.'', ''Closing two.'']" by code_simp
  have kept: "filter (\<lambda>p. p \<noteq> [] \<and> \<not> heading_start p) (map trim [''Closing one.'', ''Closing two.''])
      = [''Closing one.'', ''Closing two.'']" by code_simp
  have none: "match_all gist_rx ''No shortcode here.'' = []" by code_simp
  from closing_paragraphs [of sample_body] ne
  have "extractClosingParagraphs sample_body = [''Closing one.'', ''Closing two.'']"
    unfolding after ps kept by blast
  moreover from closing_paragraphs [of "''No shortcode here.''"] none
  have "extractClosingParagraphs ''No shortcode here.'' = []" by blast
  ultimately show ?thesis using ne after ps none by blast
qed

end
